theory Spec2Isabelle
  imports Main "HOL-Library.Char_ord" "HOL-Library.List_Lexorder" "HOL-Library.Multiset"
begin

section \<open>Streaming answer aggregation\<close>

subsection \<open>Chunks, stream events and chunk updates\<close>

text \<open>
  The chunk types of \<^verbatim>\<open>lib/types/index.ts\<close>. A chunk travels as a JSON object, and the
  page merges objects field by field, so a chunk is a record holding the tag, the id and
  every field a chunk object can carry; a field that the object does not have is \<open>None\<close>.
\<close>

datatype chunk_type = Text | Reasoning | Tool | File

datatype tool_state = Pending | Running | Completed

record chunk =
  ctype :: chunk_type
  cid :: string
  ctext :: "string option"
  toolName :: "string option"
  cstate :: "tool_state option"
  filePath :: "string option"

text \<open>
  The members of \<^verbatim>\<open>BtcaStreamEventSchema\<close>. Of a \<^verbatim>\<open>tool.updated\<close> event the
  aggregator reads \<^verbatim>\<open>callID\<close>, \<^verbatim>\<open>tool\<close> and \<^verbatim>\<open>state.status\<close>; the status stays a string,
  as it arrives from \<^verbatim>\<open>JSON.parse\<close>. The payloads of \<^verbatim>\<open>meta\<close>, \<^verbatim>\<open>done\<close> and \<^verbatim>\<open>error\<close>
  are never read.
\<close>

datatype event =
    Meta
  | TextDelta string
  | ReasoningDelta string
  | ToolUpdated string string string
  | Done
  | ErrorEvent

text \<open>
  The partial chunk of an update is \<^verbatim>\<open>{ text: existing.text }\<close> or \<^verbatim>\<open>{ state }\<close>.
\<close>

datatype patch = PatchText string | PatchState tool_state

datatype chunk_update = Add chunk | Update string patch

definition textChunkId :: string where
  "textChunkId = ''__text__''"

definition reasoningChunkId :: string where
  "reasoningChunkId = ''__reasoning__''"

text \<open>
  \<^verbatim>\<open>existing.text\<close> read for \<^verbatim>\<open>+=\<close>: a field that is absent reads as \<^verbatim>\<open>undefined\<close>,
  which string concatenation prints.
\<close>

definition textOf :: "chunk \<Rightarrow> string" where
  "textOf c = (case ctext c of Some t \<Rightarrow> t | None \<Rightarrow> ''undefined'')"

text \<open>The nested conditional on \<^verbatim>\<open>event.state.status\<close>.\<close>

definition toolStatus :: "string \<Rightarrow> tool_state" where
  "toolStatus status =
     (if status = ''pending'' then Pending
      else if status = ''running'' then Running
      else Completed)"

text \<open>
  \<^verbatim>\<open>processStreamEvent\<close>: the map \<^verbatim>\<open>chunksById\<close> and the array \<^verbatim>\<open>chunkOrder\<close> are
  mutated in place by the source; here they are passed in and returned. The
  \<^verbatim>\<open>else\<close> branch of each case runs both when the map has no entry for the id and when
  it has one of another type.
\<close>

fun processStreamEvent ::
  "event \<Rightarrow> (string \<rightharpoonup> chunk) \<Rightarrow> string list \<Rightarrow>
     chunk_update option \<times> (string \<rightharpoonup> chunk) \<times> string list" where
  "processStreamEvent (TextDelta delta) chunksById chunkOrder =
     (let created = \<lparr>ctype = Text, cid = textChunkId, ctext = Some delta,
                      toolName = None, cstate = None, filePath = None\<rparr>;
          added = (Some (Add created),
                   chunksById(textChunkId \<mapsto> created), chunkOrder @ [textChunkId])
      in case chunksById textChunkId of
           None \<Rightarrow> added
         | Some existing \<Rightarrow>
             if ctype existing = Text then
               (let t = textOf existing @ delta
                in (Some (Update textChunkId (PatchText t)),
                    chunksById(textChunkId \<mapsto> existing\<lparr>ctext := Some t\<rparr>), chunkOrder))
             else added)"
| "processStreamEvent (ReasoningDelta delta) chunksById chunkOrder =
     (let created = \<lparr>ctype = Reasoning, cid = reasoningChunkId, ctext = Some delta,
                      toolName = None, cstate = None, filePath = None\<rparr>;
          added = (Some (Add created),
                   chunksById(reasoningChunkId \<mapsto> created), chunkOrder @ [reasoningChunkId])
      in case chunksById reasoningChunkId of
           None \<Rightarrow> added
         | Some existing \<Rightarrow>
             if ctype existing = Reasoning then
               (let t = textOf existing @ delta
                in (Some (Update reasoningChunkId (PatchText t)),
                    chunksById(reasoningChunkId \<mapsto> existing\<lparr>ctext := Some t\<rparr>), chunkOrder))
             else added)"
| "processStreamEvent (ToolUpdated callID tool status) chunksById chunkOrder =
     (let state = toolStatus status;
          created = \<lparr>ctype = Tool, cid = callID, ctext = None,
                      toolName = Some tool, cstate = Some state, filePath = None\<rparr>;
          added = (Some (Add created),
                   chunksById(callID \<mapsto> created), chunkOrder @ [callID])
      in case chunksById callID of
           None \<Rightarrow> added
         | Some existing \<Rightarrow>
             if ctype existing = Tool then
               (Some (Update callID (PatchState state)),
                chunksById(callID \<mapsto> existing\<lparr>cstate := Some state\<rparr>), chunkOrder)
             else added)"
| "processStreamEvent _ chunksById chunkOrder = (None, chunksById, chunkOrder)"

text \<open>
  The read loop of the \<^verbatim>\<open>POST\<close> handler: every parsed event goes through
  \<^verbatim>\<open>processStreamEvent\<close>, and an update that is not \<^verbatim>\<open>null\<close> is enqueued.
\<close>

fun runAggregator ::
  "event list \<Rightarrow> (string \<rightharpoonup> chunk) \<Rightarrow> string list \<Rightarrow>
     chunk_update list \<times> (string \<rightharpoonup> chunk) \<times> string list" where
  "runAggregator [] chunksById chunkOrder = ([], chunksById, chunkOrder)"
| "runAggregator (e # es) chunksById chunkOrder =
     (case processStreamEvent e chunksById chunkOrder of
        (u, chunksById', chunkOrder') \<Rightarrow>
          (case runAggregator es chunksById' chunkOrder' of
             (us, final) \<Rightarrow> ((case u of None \<Rightarrow> us | Some x \<Rightarrow> x # us), final)))"

text \<open>
  The chunks of the final assistant message, \<^verbatim>\<open>chunkOrder.map((id) => chunksById.get(id)!)\<close>:
  an id the map does not hold would give \<^verbatim>\<open>undefined\<close>, here \<open>None\<close>.
\<close>

definition chunkList :: "(string \<rightharpoonup> chunk) \<Rightarrow> string list \<Rightarrow> chunk option list" where
  "chunkList chunksById chunkOrder = map chunksById chunkOrder"

text \<open>
  One answer: the handler starts from \<^verbatim>\<open>new Map()\<close> and \<^verbatim>\<open>[]\<close>, enqueues the updates
  and stores the final chunks.
\<close>

definition answer :: "event list \<Rightarrow> chunk_update list \<times> chunk option list" where
  "answer es =
     (case runAggregator es Map.empty [] of
        (us, chunksById, chunkOrder) \<Rightarrow> (us, chunkList chunksById chunkOrder))"

subsection \<open>The page's reducer\<close>

text \<open>\<^verbatim>\<open>{ ...c, ...event.chunk }\<close>: the fields of the partial chunk replace those of \<open>c\<close>.\<close>

fun mergeChunk :: "chunk \<Rightarrow> patch \<Rightarrow> chunk" where
  "mergeChunk c (PatchText t) = c\<lparr>ctext := Some t\<rparr>"
| "mergeChunk c (PatchState s) = c\<lparr>cstate := Some s\<rparr>"

text \<open>The \<^verbatim>\<open>add\<close> and \<^verbatim>\<open>update\<close> branches of the read loop of \<^verbatim>\<open>sendMessage\<close>.\<close>

fun applyUpdate :: "chunk list \<Rightarrow> chunk_update \<Rightarrow> chunk list" where
  "applyUpdate currentChunks (Add c) = currentChunks @ [c]"
| "applyUpdate currentChunks (Update i p) =
     map (\<lambda>c. if cid c \<noteq> i then c else mergeChunk c p) currentChunks"

definition replay :: "chunk_update list \<Rightarrow> chunk list" where
  "replay us = foldl applyUpdate [] us"

subsection \<open>Event sequences without an id collision\<close>

text \<open>
  The call id of a tool event is any string, so it can be one of the two sentinel ids.
  \<open>sentinelFree\<close> holds of the events that do not do that. \<open>typeOfId\<close> is the type a
  chunk of a given id has in a run of such events, and \<open>inSync\<close> relates the state of
  the aggregator to the chunk list of a reducer that has applied the same updates.
\<close>

definition sentinelFree :: "event \<Rightarrow> bool" where
  "sentinelFree e =
     (case e of
        ToolUpdated callID _ _ \<Rightarrow> callID \<noteq> textChunkId \<and> callID \<noteq> reasoningChunkId
      | _ \<Rightarrow> True)"

definition typeOfId :: "string \<Rightarrow> chunk_type" where
  "typeOfId i =
     (if i = textChunkId then Text else if i = reasoningChunkId then Reasoning else Tool)"

definition inSync :: "(string \<rightharpoonup> chunk) \<Rightarrow> string list \<Rightarrow> chunk list \<Rightarrow> bool" where
  "inSync m ord cs \<longleftrightarrow>
     distinct ord \<and> dom m = set ord \<and>
     (\<forall>i c. m i = Some c \<longrightarrow> cid c = i \<and> ctype c = typeOfId i) \<and>
     map Some cs = map m ord"

section \<open>Collections\<close>

subsection \<open>The collection key\<close>

text \<open>
  Resource names are strings. \<^verbatim>\<open>Array.prototype.sort\<close> without a comparator orders strings
  by their code units, which is the lexicographic order of \<open>char list\<close>, and
  \<^verbatim>\<open>join\<close> puts the separator between consecutive elements.
\<close>

fun joinWith :: "string \<Rightarrow> string list \<Rightarrow> string" where
  "joinWith sep [] = []"
| "joinWith sep [x] = x"
| "joinWith sep (x # y # ys) = x @ sep @ joinWith sep (y # ys)"

definition getCollectionKey :: "string list \<Rightarrow> string" where
  "getCollectionKey resourceNames = joinWith ''+'' (sort resourceNames)"

subsection \<open>Loading a collection\<close>

text \<open>
  \<^verbatim>\<open>Array.from(new Set(resourceNames))\<close>: a set keeps the first occurrence of each
  element, in insertion order.
\<close>

definition uniqueNames :: "string list \<Rightarrow> string list" where
  "uniqueNames resourceNames =
     foldl (\<lambda>seen n. if n \<in> set seen then seen else seen @ [n]) [] resourceNames"

datatype collection_error = CollectionError (message: string) (cause: "string option")

text \<open>
  Of a loaded resource (\<^verbatim>\<open>BtcaFsResource\<close>) the collection reads the name, the sub-path,
  the special instructions and the effect \<^verbatim>\<open>getAbsoluteDirectoryPath\<close>, which gives a path
  or fails with a message.
\<close>

record resource =
  name :: string
  repoSubPath :: string
  specialAgentInstructions :: string
  getAbsoluteDirectoryPath :: "string + string"

record CollectionResult =
  path :: string
  agentInstructions :: string

text \<open>
  The services a collection is built with. The file system is the directory listing
  below: a path holds a directory, a symbolic link with its target, or nothing. Every call
  of a service is recorded in a trace, in order.
\<close>

datatype entry = Dir | Link string

datatype operation =
    MakeDirectory string
  | LoadResource string
  | Exists string
  | Remove string
  | Symlink string string

record world =
  entries :: "string \<rightharpoonup> entry"
  trace :: "operation list"

text \<open>
  What the layer is given: the configuration, the path service, the resource service
  (\<^verbatim>\<open>resources.load\<close> gives a resource or fails with a message), the collation behind
  \<^verbatim>\<open>localeCompare\<close>, here the sort it induces, the constant \<^verbatim>\<open>FS_RESOURCE_SYSTEM_NOTE\<close>, and
  the file-system operations that the platform refuses (permissions, a full disk).
\<close>

record services =
  collectionsDirectory :: string
  pathJoin :: "string \<Rightarrow> string \<Rightarrow> string"
  resourcesLoad :: "string \<Rightarrow> string + resource"
  localeSort :: "string list \<Rightarrow> string list"
  systemNote :: string
  refuses :: "operation \<Rightarrow> bool"

text \<open>
  The file-system calls of \<^verbatim>\<open>load\<close>. \<^verbatim>\<open>makeDirectory\<close> with \<^verbatim>\<open>recursive\<close> accepts a
  directory that exists; \<^verbatim>\<open>remove\<close> with \<^verbatim>\<open>force\<close> accepts a path that holds nothing;
  \<^verbatim>\<open>symlink\<close> needs a free path. Each returns an error message or the new listing.
\<close>

definition makeDirectory :: "services \<Rightarrow> string \<Rightarrow> world \<Rightarrow> (string + unit) \<times> world" where
  "makeDirectory sv p w =
     (let w' = w\<lparr>trace := trace w @ [MakeDirectory p]\<rparr>
      in if refuses sv (MakeDirectory p) then (Inl ''makeDirectory'', w')
         else case entries w p of
                None \<Rightarrow> (Inr (), w'\<lparr>entries := (entries w)(p \<mapsto> Dir)\<rparr>)
              | Some Dir \<Rightarrow> (Inr (), w')
              | Some (Link t) \<Rightarrow> (Inl ''makeDirectory'', w'))"

definition exists :: "services \<Rightarrow> string \<Rightarrow> world \<Rightarrow> (string + bool) \<times> world" where
  "exists sv p w =
     (let w' = w\<lparr>trace := trace w @ [Exists p]\<rparr>
      in if refuses sv (Exists p) then (Inl ''exists'', w')
         else (Inr (entries w p \<noteq> None), w'))"

definition remove :: "services \<Rightarrow> string \<Rightarrow> world \<Rightarrow> (string + unit) \<times> world" where
  "remove sv p w =
     (let w' = w\<lparr>trace := trace w @ [Remove p]\<rparr>
      in if refuses sv (Remove p) then (Inl ''remove'', w')
         else (Inr (), w'\<lparr>entries := (entries w)(p := None)\<rparr>))"

definition symlink :: "services \<Rightarrow> string \<Rightarrow> string \<Rightarrow> world \<Rightarrow> (string + unit) \<times> world" where
  "symlink sv target p w =
     (let w' = w\<lparr>trace := trace w @ [Symlink target p]\<rparr>
      in if refuses sv (Symlink target p) \<or> entries w p \<noteq> None then (Inl ''symlink'', w')
         else (Inr (), w'\<lparr>entries := (entries w)(p \<mapsto> Link target)\<rparr>))"

text \<open>\<^verbatim>\<open>createCollectionInstructionBlock\<close>; \<^verbatim>\<open>filter(Boolean)\<close> drops the empty lines.\<close>

definition createCollectionInstructionBlock :: "services \<Rightarrow> resource \<Rightarrow> string" where
  "createCollectionInstructionBlock sv r =
     joinWith [CHR 10]
       (filter (\<lambda>l. l \<noteq> [])
          [''## Resource: '' @ name r,
           systemNote sv,
           ''Path: ./'' @ name r,
           (if repoSubPath r \<noteq> [] then ''Focus: ./'' @ name r @ ''/'' @ repoSubPath r else []),
           (if specialAgentInstructions r \<noteq> []
            then ''Notes: '' @ specialAgentInstructions r else [])])"

text \<open>The first loop of \<^verbatim>\<open>load\<close>: the resources are loaded one after the other.\<close>

fun loadResources ::
  "services \<Rightarrow> string list \<Rightarrow> world \<Rightarrow> (collection_error + resource list) \<times> world" where
  "loadResources sv [] w = (Inr [], w)"
| "loadResources sv (n # ns) w =
     (let w' = w\<lparr>trace := trace w @ [LoadResource n]\<rparr>
      in case resourcesLoad sv n of
           Inl c \<Rightarrow> (Inl (CollectionError (''Failed to load resource '' @ n) (Some c)), w')
         | Inr r \<Rightarrow>
             (case loadResources sv ns w' of
                (Inl e, w'') \<Rightarrow> (Inl e, w'')
              | (Inr rs, w'') \<Rightarrow> (Inr (r # rs), w'')))"

text \<open>
  The second loop: for each loaded resource, whatever sits at the link path is removed and
  the link is created.
\<close>

fun linkResources ::
  "services \<Rightarrow> string \<Rightarrow> resource list \<Rightarrow> world \<Rightarrow> (collection_error + unit) \<times> world" where
  "linkResources sv collectionPath [] w = (Inr (), w)"
| "linkResources sv collectionPath (r # rs) w =
     (case getAbsoluteDirectoryPath r of
        Inl c \<Rightarrow> (Inl (CollectionError (''Failed to get path for '' @ name r) (Some c)), w)
      | Inr resourcePath \<Rightarrow>
          (let linkPath = pathJoin sv collectionPath (name r);
               (found, w1) = exists sv linkPath w;
               linkExists = (case found of Inl _ \<Rightarrow> False | Inr b \<Rightarrow> b);
               (removed, w2) = (if linkExists then remove sv linkPath w1 else (Inr (), w1))
           in case removed of
                Inl c \<Rightarrow>
                  (Inl (CollectionError (''Failed to remove existing entry for '' @ name r)
                     (Some c)), w2)
              | Inr _ \<Rightarrow>
                  (case symlink sv resourcePath linkPath w2 of
                     (Inl c, w3) \<Rightarrow>
                       (Inl (CollectionError (''Failed to create symlink for '' @ name r)
                          (Some c)), w3)
                   | (Inr _, w3) \<Rightarrow> linkResources sv collectionPath rs w3)))"

definition headerBlock :: string where
  "headerBlock =
     joinWith [CHR 10]
       [''## Collection'',
        ''You are running inside the collection directory.'',
        ''Only use relative paths within '' @ [CHR 39] @ ''.'' @ [CHR 39] @
          '' and never use '' @ [CHR 39] @ ''..'' @ [CHR 39] @ '' or absolute paths.'',
        ''Do not leave the collection directory.'']"

text \<open>\<^verbatim>\<open>Collections.load\<close>.\<close>

definition load :: "services \<Rightarrow> string list \<Rightarrow> world \<Rightarrow> (collection_error + CollectionResult) \<times> world" where
  "load sv resourceNames w =
     (let uniq = uniqueNames resourceNames
      in if length uniq = 0
         then (Inl (CollectionError ''Cannot create collection with no resources'' None), w)
         else
           (let sortedNames = localeSort sv uniq;
                key = getCollectionKey sortedNames;
                collectionPath = pathJoin sv (collectionsDirectory sv) key
            in case makeDirectory sv collectionPath w of
                 (Inl c, w1) \<Rightarrow>
                   (Inl (CollectionError ''Failed to create collection directory'' (Some c)), w1)
               | (Inr _, w1) \<Rightarrow>
                   (case loadResources sv sortedNames w1 of
                      (Inl e, w2) \<Rightarrow> (Inl e, w2)
                    | (Inr loadedResources, w2) \<Rightarrow>
                        (case linkResources sv collectionPath loadedResources w2 of
                           (Inl e, w3) \<Rightarrow> (Inl e, w3)
                         | (Inr _, w3) \<Rightarrow>
                             (Inr \<lparr>path = collectionPath,
                                   agentInstructions =
                                     joinWith [CHR 10, CHR 10]
                                       (headerBlock #
                                        map (createCollectionInstructionBlock sv)
                                          loadedResources)\<rparr>,
                              w3)))))"

text \<open>
  The key that \<^verbatim>\<open>questionHandler\<close> reports for a request, next to the path that
  \<^verbatim>\<open>collections.load\<close> returned for the same names.
\<close>

definition reportedKey :: "string list \<Rightarrow> string" where
  "reportedKey resourceNames = getCollectionKey resourceNames"

definition loadedKey :: "services \<Rightarrow> string list \<Rightarrow> string" where
  "loadedKey sv resourceNames = getCollectionKey (localeSort sv (uniqueNames resourceNames))"


text \<open>
  A configuration to run \<^verbatim>\<open>load\<close> on: every name is a resource checked out under
  \<^verbatim>\<open>/r\<close>, paths are joined with a slash, and the platform refuses nothing.
\<close>

definition exampleServices :: services where
  "exampleServices =
     \<lparr>collectionsDirectory = ''/c'',
      pathJoin = (\<lambda>a b. a @ ''/'' @ b),
      resourcesLoad = (\<lambda>n. Inr \<lparr>name = n, repoSubPath = [], specialAgentInstructions = [],
                                getAbsoluteDirectoryPath = Inr (''/r/'' @ n)\<rparr>),
      localeSort = sort,
      systemNote = ''note'',
      refuses = (\<lambda>_. False)\<rparr>"

definition emptyWorld :: world where
  "emptyWorld = \<lparr>entries = Map.empty, trace = []\<rparr>"



section \<open>Configuration files with comments\<close>

subsection \<open>\<^verbatim>\<open>stripJsonc\<close>\<close>

text \<open>
  A string is the list of its code units; \<open>char\<close> covers the code units below 256. Of
  these, \<^verbatim>\<open>/\s/\<close> and \<^verbatim>\<open>trim\<close> take the following for white space: tab, line feed,
  vertical tab, form feed, carriage return, space and the no-break space.
\<close>

definition isSpace :: "char \<Rightarrow> bool" where
  "isSpace c \<longleftrightarrow>
     c = CHR 0x09 \<or> c = CHR 0x0A \<or> c = CHR 0x0B \<or> c = CHR 0x0C \<or> c = CHR 0x0D \<or>
     c = CHR 0x20 \<or> c = CHR 0xA0"

definition trim :: "string \<Rightarrow> string" where
  "trim s = rev (dropWhile isSpace (rev (dropWhile isSpace s)))"

text \<open>
  The inner loop of a block comment, on the text after \<^verbatim>\<open>/*\<close>: it stops after the
  first \<^verbatim>\<open>*/\<close>, or at the end of the text.
\<close>

fun skipBlockComment :: "string \<Rightarrow> string" where
  "skipBlockComment [] = []"
| "skipBlockComment (c # cs) =
     (if c = CHR ''*'' \<and> (case cs of [] \<Rightarrow> False | d # _ \<Rightarrow> d = CHR ''/'')
      then tl cs else skipBlockComment cs)"

lemma length_skipBlockComment: "length (skipBlockComment cs) \<le> length cs"
  by (induction cs) (auto split: list.splits)

lemma length_skipBlockComment_tl: "length (skipBlockComment (tl cs)) < Suc (length cs)"
  using length_skipBlockComment [of "tl cs"] by simp

lemma length_dropWhile_tl: "length (dropWhile P (tl cs)) < Suc (length cs)"
  using length_dropWhile_le [of P "tl cs"] by simp

text \<open>
  The first loop, on the text from index \<open>i\<close> on, with the variables \<^verbatim>\<open>inString\<close>,
  \<^verbatim>\<open>stringQuote\<close> and \<^verbatim>\<open>escaped\<close>; the result is what the loop appends to \<^verbatim>\<open>out\<close>.
  \<^verbatim>\<open>next\<close> is the empty string at the end of the text and then equals no character.
\<close>

function stripComments :: "bool \<Rightarrow> char option \<Rightarrow> bool \<Rightarrow> string \<Rightarrow> string" where
  "stripComments inString stringQuote escaped [] = []"
| "stripComments inString stringQuote escaped (ch # rest) =
     (let next = (case rest of [] \<Rightarrow> None | d # _ \<Rightarrow> Some d)
      in if inString then
           ch # (if escaped then stripComments inString stringQuote False rest
                 else if ch = CHR 0x5C then stripComments inString stringQuote True rest
                 else if stringQuote \<noteq> None \<and> Some ch = stringQuote
                   then stripComments False None escaped rest
                 else stripComments inString stringQuote escaped rest)
         else if ch = CHR ''/'' \<and> next = Some CHR ''/'' then
           stripComments inString stringQuote escaped
             (dropWhile (\<lambda>c. c \<noteq> CHR 0x0A) (tl rest))
         else if ch = CHR ''/'' \<and> next = Some CHR ''*'' then
           stripComments inString stringQuote escaped (skipBlockComment (tl rest))
         else if ch = CHR 0x22 \<or> ch = CHR 0x27 then
           ch # stripComments True (Some ch) escaped rest
         else ch # stripComments inString stringQuote escaped rest)"
  by pat_completeness auto
termination
  by (relation "measure (\<lambda>(inString, stringQuote, escaped, content). length content)")
    (simp_all add: length_dropWhile_tl length_skipBlockComment_tl)

text \<open>
  The second loop, on \<^verbatim>\<open>out\<close> from index \<open>i\<close> on: a comma outside a string is dropped
  when the next character that is not white space is a closing bracket or brace.
\<close>

fun stripTrailingCommas :: "bool \<Rightarrow> char option \<Rightarrow> bool \<Rightarrow> string \<Rightarrow> string" where
  "stripTrailingCommas inString stringQuote escaped [] = []"
| "stripTrailingCommas inString stringQuote escaped (ch # rest) =
     (if inString then
        ch # (if escaped then stripTrailingCommas inString stringQuote False rest
              else if ch = CHR 0x5C then stripTrailingCommas inString stringQuote True rest
              else if stringQuote \<noteq> None \<and> Some ch = stringQuote
                then stripTrailingCommas False None escaped rest
              else stripTrailingCommas inString stringQuote escaped rest)
      else if ch = CHR 0x22 \<or> ch = CHR 0x27 then
        ch # stripTrailingCommas True (Some ch) escaped rest
      else if ch = CHR '','' \<and>
              (let nextNonWs = (case dropWhile isSpace rest of [] \<Rightarrow> None | d # _ \<Rightarrow> Some d)
               in nextNonWs = Some CHR '']'' \<or> nextNonWs = Some CHR ''}'')
        then stripTrailingCommas inString stringQuote escaped rest
      else ch # stripTrailingCommas inString stringQuote escaped rest)"

definition stripJsonc :: "string \<Rightarrow> string" where
  "stripJsonc content =
     trim (stripTrailingCommas False None False (stripComments False None False content))"

text \<open>\<^verbatim>\<open>parseJsonc\<close>; \<^verbatim>\<open>JSON.parse\<close> is the platform's and is a parameter here.\<close>

definition parseJsonc :: "(string \<Rightarrow> 'a) \<Rightarrow> string \<Rightarrow> 'a" where
  "parseJsonc jsonParse content = jsonParse (stripJsonc content)"

subsection \<open>String literals, comment openers and trailing commas\<close>

text \<open>
  The lexical notions of the statement about \<^verbatim>\<open>stripJsonc\<close>. A string literal starts at
  a double or single quote outside a literal and ends at the next occurrence of the same
  quote that no backslash escapes. A position is outside a string literal when the state
  before its character is \<open>Outside\<close>.
\<close>

datatype lexState = Outside | Inside char bool

fun lexStep :: "lexState \<Rightarrow> char \<Rightarrow> lexState" where
  "lexStep Outside c = (if c = CHR 0x22 \<or> c = CHR 0x27 then Inside c False else Outside)"
| "lexStep (Inside q True) c = Inside q False"
| "lexStep (Inside q False) c =
     (if c = CHR 0x5C then Inside q True else if c = q then Outside else Inside q False)"

text \<open>The text from a position on starts with a comment opener.\<close>

definition commentOpener :: "string \<Rightarrow> bool" where
  "commentOpener s \<longleftrightarrow> take 2 s = ''//'' \<or> take 2 s = ''/*''"

text \<open>
  The text from a position on starts with a trailing comma: a comma whose next character
  that is not white space is a closing bracket or brace.
\<close>

definition trailingComma :: "string \<Rightarrow> bool" where
  "trailingComma s =
     (case s of
        [] \<Rightarrow> False
      | c # cs \<Rightarrow>
          c = CHR '','' \<and>
          (case dropWhile isSpace cs of [] \<Rightarrow> False | d # _ \<Rightarrow> d = CHR '']'' \<or> d = CHR ''}''))"

text \<open>No comment opener and no trailing comma occurs outside a string literal.\<close>

fun plainFrom :: "lexState \<Rightarrow> string \<Rightarrow> bool" where
  "plainFrom l [] = True"
| "plainFrom l (c # cs) =
     (if l = Outside \<and> (commentOpener (c # cs) \<or> trailingComma (c # cs)) then False
      else plainFrom (lexStep l c) cs)"

definition plainJson :: "string \<Rightarrow> bool" where
  "plainJson s = plainFrom Outside s"

text \<open>
  The complete string literals of a text without comments, quotes included, in order; the
  second argument collects the literal that is open.
\<close>

fun jsonLiterals :: "lexState \<Rightarrow> string \<Rightarrow> string \<Rightarrow> string list" where
  "jsonLiterals l acc [] = []"
| "jsonLiterals l acc (c # cs) =
     (case l of
        Outside \<Rightarrow>
          (if c = CHR 0x22 \<or> c = CHR 0x27 then jsonLiterals (Inside c False) [c] cs
           else jsonLiterals Outside [] cs)
      | Inside q esc \<Rightarrow>
          (if lexStep l c = Outside then (acc @ [c]) # jsonLiterals Outside [] cs
           else jsonLiterals (lexStep l c) (acc @ [c]) cs))"

text \<open>
  The complete string literals of a text with comments: outside a literal, \<^verbatim>\<open>//\<close> opens a
  comment that runs up to the end of the line and \<^verbatim>\<open>/*\<close> one that runs up to the first
  \<^verbatim>\<open>*/\<close>; what a comment holds is no literal.
\<close>

function jsoncLiterals :: "lexState \<Rightarrow> string \<Rightarrow> string \<Rightarrow> string list" where
  "jsoncLiterals l acc [] = []"
| "jsoncLiterals l acc (c # cs) =
     (case l of
        Outside \<Rightarrow>
          (if take 2 (c # cs) = ''//'' then
             jsoncLiterals Outside [] (dropWhile (\<lambda>c. c \<noteq> CHR 0x0A) (tl cs))
           else if take 2 (c # cs) = ''/*'' then
             jsoncLiterals Outside [] (skipBlockComment (tl cs))
           else if c = CHR 0x22 \<or> c = CHR 0x27 then jsoncLiterals (Inside c False) [c] cs
           else jsoncLiterals Outside [] cs)
      | Inside q esc \<Rightarrow>
          (if lexStep l c = Outside then (acc @ [c]) # jsoncLiterals Outside [] cs
           else jsoncLiterals (lexStep l c) (acc @ [c]) cs))"
  by pat_completeness auto
termination
  by (relation "measure (\<lambda>(l, acc, s). length s)")
    (simp_all add: length_dropWhile_tl length_skipBlockComment_tl)

text \<open>The quote of an open literal is one of the two quote characters.\<close>

definition properState :: "lexState \<Rightarrow> bool" where
  "properState l = (case l of Outside \<Rightarrow> True | Inside q e \<Rightarrow> q = CHR 0x22 \<or> q = CHR 0x27)"

subsection \<open>JSON texts\<close>

text \<open>
  The grammar of JSON (RFC 8259), for the statement that \<^verbatim>\<open>stripJsonc\<close> leaves a plain
  JSON document alone: white space, the characters of a string between its quotes,
  numbers, and values with their elements and members.
\<close>

definition jsonSpace :: "char \<Rightarrow> bool" where
  "jsonSpace c \<longleftrightarrow> c = CHR 0x20 \<or> c = CHR 0x09 \<or> c = CHR 0x0A \<or> c = CHR 0x0D"

definition digit :: "char \<Rightarrow> bool" where
  "digit c \<longleftrightarrow> c \<in> set ''0123456789''"

definition hexDigit :: "char \<Rightarrow> bool" where
  "hexDigit c \<longleftrightarrow> c \<in> set ''0123456789abcdefABCDEF''"

inductive jsonChars :: "string \<Rightarrow> bool" where
  no_chars: "jsonChars []"
| unescaped: "c \<noteq> CHR 0x22 \<Longrightarrow> c \<noteq> CHR 0x5C \<Longrightarrow> CHR 0x20 \<le> c \<Longrightarrow> jsonChars cs \<Longrightarrow>
     jsonChars (c # cs)"
| escaped: "e \<in> set [CHR 0x22, CHR 0x5C, CHR ''/'', CHR ''b'', CHR ''f'', CHR ''n'', CHR ''r'', CHR ''t'']
     \<Longrightarrow> jsonChars cs \<Longrightarrow> jsonChars (CHR 0x5C # e # cs)"
| unicode: "hexDigit h1 \<Longrightarrow> hexDigit h2 \<Longrightarrow> hexDigit h3 \<Longrightarrow> hexDigit h4 \<Longrightarrow> jsonChars cs \<Longrightarrow>
     jsonChars (CHR 0x5C # CHR ''u'' # h1 # h2 # h3 # h4 # cs)"

text \<open>A number: an optional minus, the integer part, an optional fraction and exponent.\<close>

definition jsonInt :: "string \<Rightarrow> bool" where
  "jsonInt ds \<longleftrightarrow> ds = ''0'' \<or> (ds \<noteq> [] \<and> list_all digit ds \<and> hd ds \<noteq> CHR ''0'')"

definition jsonFrac :: "string \<Rightarrow> bool" where
  "jsonFrac f \<longleftrightarrow> f = [] \<or> (\<exists>ds. f = CHR ''.'' # ds \<and> ds \<noteq> [] \<and> list_all digit ds)"

definition jsonExp :: "string \<Rightarrow> bool" where
  "jsonExp x \<longleftrightarrow>
     x = [] \<or>
     (\<exists>e sign ds. x = e # sign @ ds \<and> (e = CHR ''e'' \<or> e = CHR ''E'') \<and>
        (sign = [] \<or> sign = ''+'' \<or> sign = ''-'') \<and> ds \<noteq> [] \<and> list_all digit ds)"

definition jsonNumber :: "string \<Rightarrow> bool" where
  "jsonNumber n \<longleftrightarrow>
     (\<exists>minus whole f x. n = minus @ whole @ f @ x \<and> (minus = [] \<or> minus = ''-'') \<and>
        jsonInt whole \<and> jsonFrac f \<and> jsonExp x)"

inductive jsonValue :: "string \<Rightarrow> bool"
  and jsonElements :: "string \<Rightarrow> bool"
  and jsonMembers :: "string \<Rightarrow> bool" where
  null: "jsonValue ''null''"
| true: "jsonValue ''true''"
| false: "jsonValue ''false''"
| number: "jsonNumber n \<Longrightarrow> jsonValue n"
| string: "jsonChars cs \<Longrightarrow> jsonValue (CHR 0x22 # cs @ [CHR 0x22])"
| empty_array: "list_all jsonSpace w \<Longrightarrow> jsonValue (CHR ''['' # w @ '']'')"
| array: "jsonElements es \<Longrightarrow> jsonValue (CHR ''['' # es @ '']'')"
| empty_object: "list_all jsonSpace w \<Longrightarrow> jsonValue (CHR ''{'' # w @ ''}'')"
| object: "jsonMembers ms \<Longrightarrow> jsonValue (CHR ''{'' # ms @ ''}'')"
| element: "list_all jsonSpace w1 \<Longrightarrow> jsonValue v \<Longrightarrow> list_all jsonSpace w2 \<Longrightarrow>
     jsonElements (w1 @ v @ w2)"
| elements: "list_all jsonSpace w1 \<Longrightarrow> jsonValue v \<Longrightarrow> list_all jsonSpace w2 \<Longrightarrow>
     jsonElements es \<Longrightarrow> jsonElements (w1 @ v @ w2 @ CHR '','' # es)"
| member: "list_all jsonSpace w1 \<Longrightarrow> jsonChars k \<Longrightarrow> list_all jsonSpace w2 \<Longrightarrow>
     list_all jsonSpace w3 \<Longrightarrow> jsonValue v \<Longrightarrow> list_all jsonSpace w4 \<Longrightarrow>
     jsonMembers (w1 @ CHR 0x22 # k @ CHR 0x22 # w2 @ CHR '':'' # w3 @ v @ w4)"
| members: "list_all jsonSpace w1 \<Longrightarrow> jsonChars k \<Longrightarrow> list_all jsonSpace w2 \<Longrightarrow>
     list_all jsonSpace w3 \<Longrightarrow> jsonValue v \<Longrightarrow> list_all jsonSpace w4 \<Longrightarrow>
     jsonMembers ms \<Longrightarrow>
     jsonMembers (w1 @ CHR 0x22 # k @ CHR 0x22 # w2 @ CHR '':'' # w3 @ v @ w4 @ CHR '','' # ms)"

text \<open>
  Notions for the proof about JSON texts: a character that neither opens a string literal
  or a comment nor is a comma; a character that a number can hold; a text that starts and
  ends with a character that is no white space and does not start with a closing bracket
  or brace; and a text before which a comma is no trailing comma.
\<close>

definition neutral :: "char \<Rightarrow> bool" where
  "neutral c \<longleftrightarrow> c \<noteq> CHR 0x22 \<and> c \<noteq> CHR 0x27 \<and> c \<noteq> CHR ''/'' \<and> c \<noteq> CHR '',''"

definition numChar :: "char \<Rightarrow> bool" where
  "numChar c \<longleftrightarrow> c \<in> set ''0123456789+-.eE''"

definition solid :: "string \<Rightarrow> bool" where
  "solid v \<longleftrightarrow>
     v \<noteq> [] \<and> \<not> isSpace (hd v) \<and> hd v \<noteq> CHR '']'' \<and> hd v \<noteq> CHR ''}'' \<and> \<not> isSpace (last v)"

definition leads :: "string \<Rightarrow> bool" where
  "leads x \<longleftrightarrow> (\<forall>rest. \<not> trailingComma (CHR '','' # x @ rest))"

section \<open>Syncing the configured repositories\<close>

text \<open>
  The context service of the earlier core. A repository has a name, a url and a branch
  that may be missing. What git and the file system answer is given by the environment:
  the exit codes of \<^verbatim>\<open>git clone\<close> and \<^verbatim>\<open>git pull\<close>, and the directory test, which gives a
  truth value or throws.
\<close>

record Repo =
  repoName :: string
  repoUrl :: string
  repoBranch :: "string option"

datatype error_cause = GitCloneExit int | GitPullExit int | CheckThrew string

datatype context_error = ContextError string error_cause

record git =
  joinPath :: "string \<Rightarrow> string \<Rightarrow> string"
  directoryExists :: "string \<Rightarrow> string + bool"
  gitClone :: "string \<Rightarrow> string \<Rightarrow> string \<Rightarrow> int"
  gitPull :: "string \<Rightarrow> string \<Rightarrow> int"

text \<open>\<^verbatim>\<open>cloneRepo\<close> and \<^verbatim>\<open>pullRepo\<close>: an exit code other than 0 is thrown and caught.\<close>

definition cloneRepo :: "git \<Rightarrow> string \<Rightarrow> string \<Rightarrow> string \<Rightarrow> context_error + unit" where
  "cloneRepo env repoDir url branch =
     (let exitCode = gitClone env branch url repoDir
      in if exitCode \<noteq> 0 then Inl (ContextError ''Failed to clone repo'' (GitCloneExit exitCode))
         else Inr ())"

definition pullRepo :: "git \<Rightarrow> string \<Rightarrow> string \<Rightarrow> context_error + unit" where
  "pullRepo env repoDir branch =
     (let exitCode = gitPull env repoDir branch
      in if exitCode \<noteq> 0 then Inl (ContextError ''Failed to pull repo'' (GitPullExit exitCode))
         else Inr ())"

text \<open>\<^verbatim>\<open>cloneOrUpdate\<close>: pull when the directory of the repository exists, clone otherwise.\<close>

definition cloneOrUpdate :: "git \<Rightarrow> string \<Rightarrow> Repo \<Rightarrow> context_error + unit" where
  "cloneOrUpdate env reposDirectory repo =
     (let repoDir = joinPath env reposDirectory (repoName repo);
          branch = (case repoBranch repo of None \<Rightarrow> ''main'' | Some b \<Rightarrow> b)
      in case directoryExists env repoDir of
           Inl c \<Rightarrow> Inl (ContextError ''Failed to check directory'' (CheckThrew c))
         | Inr ex \<Rightarrow>
             if ex then pullRepo env repoDir branch
             else cloneRepo env repoDir (repoUrl repo) branch)"

text \<open>
  \<^verbatim>\<open>Effect.all(operations, { concurrency: "unbounded" })\<close> starts every operation at
  once. The operations finish in an order that the run decides; the argument lists them,
  with their outcomes, in that order. The first failure to arrive fails the whole effect
  with its error and interrupts the operations that have not finished; when no operation
  fails the effect succeeds. The result is the outcome of the whole, with the names of the
  operations that ran to their end.
\<close>

fun effectAll ::
  "(string \<times> (context_error + unit)) list \<Rightarrow> (context_error + unit) \<times> string list" where
  "effectAll [] = (Inr (), [])"
| "effectAll ((n, Inl e) # later) = (Inl e, [])"
| "effectAll ((n, Inr u) # later) =
     (case effectAll later of (outcome, finished) \<Rightarrow> (outcome, n # finished))"

text \<open>
  \<^verbatim>\<open>cloneOrUpdateAllReposLocally\<close>, for the repositories of the configuration in the
  order in which their operations finish.
\<close>

definition cloneOrUpdateAllReposLocally ::
  "git \<Rightarrow> string \<Rightarrow> Repo list \<Rightarrow> (context_error + unit) \<times> string list" where
  "cloneOrUpdateAllReposLocally env reposDirectory repos =
     effectAll (map (\<lambda>repo. (repoName repo, cloneOrUpdate env reposDirectory repo)) repos)"

text \<open>
  An environment in which no repository is checked out yet, the clone of \<^verbatim>\<open>broken\<close>
  exits with 128 and every other clone succeeds, and two repositories.
\<close>

definition exampleGit :: git where
  "exampleGit =
     \<lparr>joinPath = (\<lambda>a b. a @ ''/'' @ b),
      directoryExists = (\<lambda>dir. Inr False),
      gitClone = (\<lambda>branch url repoDir. if url = ''https://example.com/broken'' then 128 else 0),
      gitPull = (\<lambda>repoDir branch. 0)\<rparr>"

definition brokenRepo :: Repo where
  "brokenRepo = \<lparr>repoName = ''broken'', repoUrl = ''https://example.com/broken'', repoBranch = None\<rparr>"

definition svelteRepo :: Repo where
  "svelteRepo =
     \<lparr>repoName = ''svelte'', repoUrl = ''https://example.com/svelte'', repoBranch = Some ''main''\<rparr>"

section \<open>Cancelling a streaming answer\<close>

subsection \<open>The chat page\<close>

text \<open>
  The state of the page that \<^verbatim>\<open>sendMessage\<close> and \<^verbatim>\<open>requestCancel\<close> share. Of a message
  the role and the content are kept. \<^verbatim>\<open>abortController\<close> is \<^verbatim>\<open>null\<close> (\<open>None\<close>) or a
  controller, of which the flag \<^verbatim>\<open>signal.aborted\<close> is kept.
\<close>

datatype cancel_state = CancelNone | CancelPending

datatype message =
    UserMessage string
  | AssistantMessage "chunk list" bool
  | SystemMessage string

record page =
  messages :: "message list"
  sessionStatus :: string
  isStreaming :: bool
  sandboxStatus :: "string option"
  cancelState :: cancel_state
  currentChunks :: "chunk list"
  abortController :: "bool option"

text \<open>
  What the page reads from the response: the messages of the wire protocol, and data that
  \<^verbatim>\<open>JSON.parse\<close> rejects.
\<close>

datatype stream_message =
    StatusMessage string
  | ChunkMessage chunk_update
  | DoneMessage
  | ErrorMessage string
  | Malformed

text \<open>\<^verbatim>\<open>requestCancel\<close> of the page.\<close>

definition requestCancel :: "page \<Rightarrow> page" where
  "requestCancel p =
     (if cancelState p = CancelNone then p\<lparr>cancelState := CancelPending\<rparr>
      else case abortController p of
             None \<Rightarrow> p
           | Some aborted \<Rightarrow> p\<lparr>abortController := Some True\<rparr>)"

text \<open>The \<^verbatim>\<open>finally\<close> block of \<^verbatim>\<open>sendMessage\<close>.\<close>

definition finish :: "page \<Rightarrow> page" where
  "finish p =
     p\<lparr>isStreaming := False, sandboxStatus := None, cancelState := CancelNone,
       currentChunks := [], abortController := None\<rparr>"

text \<open>
  The \<^verbatim>\<open>catch\<close> block: an \<^verbatim>\<open>AbortError\<close> leaves the message "Request canceled.", any
  other error its own message.
\<close>

definition catchAbort :: "page \<Rightarrow> page" where
  "catchAbort p = finish (p\<lparr>messages := messages p @ [SystemMessage ''Request canceled.'']\<rparr>)"

definition catchError :: "string \<Rightarrow> page \<Rightarrow> page" where
  "catchError msg p = finish (p\<lparr>messages := messages p @ [SystemMessage (''Error: '' @ msg)]\<rparr>)"

text \<open>
  The body of the read loop for one message. A syntax error of \<^verbatim>\<open>JSON.parse\<close> is caught
  in the loop; the error of an \<^verbatim>\<open>error\<close> message is thrown on to the \<^verbatim>\<open>catch\<close> block.
\<close>

fun onStreamMessage :: "stream_message \<Rightarrow> page \<Rightarrow> page" where
  "onStreamMessage (StatusMessage status) p =
     (let p' = p\<lparr>sandboxStatus := Some status\<rparr>
      in if status = ''active'' then p'\<lparr>sessionStatus := ''active''\<rparr> else p')"
| "onStreamMessage (ChunkMessage (Add c)) p =
     p\<lparr>sandboxStatus := None, currentChunks := applyUpdate (currentChunks p) (Add c)\<rparr>"
| "onStreamMessage (ChunkMessage (Update i patch)) p =
     p\<lparr>currentChunks := applyUpdate (currentChunks p) (Update i patch)\<rparr>"
| "onStreamMessage DoneMessage p = p"
| "onStreamMessage (ErrorMessage msg) p = catchError msg p"
| "onStreamMessage Malformed p = p"

text \<open>After the loop: the chunks become the assistant message.\<close>

definition onStreamEnd :: "page \<Rightarrow> page" where
  "onStreamEnd p =
     finish (p\<lparr>messages := messages p @ [AssistantMessage (currentChunks p) False]\<rparr>)"

text \<open>
  What happens to a page, one thing at a time: the Escape key, a message that the pending
  read delivers, the end of the response. The key handler calls \<^verbatim>\<open>requestCancel\<close> while
  the page is streaming. When that aborts the controller, the pending read rejects with an
  \<^verbatim>\<open>AbortError\<close>, so the \<^verbatim>\<open>catch\<close> and \<^verbatim>\<open>finally\<close> blocks run before anything else of the
  response is handled. Once \<^verbatim>\<open>sendMessage\<close> has returned nothing reads the response.
\<close>

datatype happening = Escape | Arrives stream_message | EndOfStream

fun happen :: "page \<Rightarrow> happening \<Rightarrow> page" where
  "happen p Escape =
     (if isStreaming p then
        (let p' = requestCancel p
         in if abortController p' = Some True then catchAbort p' else p')
      else p)"
| "happen p (Arrives m) = (if isStreaming p then onStreamMessage m p else p)"
| "happen p EndOfStream = (if isStreaming p then onStreamEnd p else p)"

subsection \<open>The terminal client\<close>







section \<open>Properties of the aggregator\<close>

text \<open>
  The state of the aggregator is threaded through every call as a function, so the
  simplifier looks maps up by \<open>fun_upd_same\<close> and \<open>fun_upd_other\<close> only and leaves an
  update that is not applied to a key as it is.
\<close>

declare fun_upd_apply [simp del]
declare fun_upd_same [simp] fun_upd_other [simp]

subsection \<open>A run of text deltas\<close>

lemma text_run_existing:
  "m textChunkId = Some e \<Longrightarrow> ctype e = Text \<Longrightarrow> ctext e = Some t \<Longrightarrow>
   runAggregator (map TextDelta ds) m ord =
     (map (\<lambda>n. Update textChunkId (PatchText (t @ concat (take (Suc n) ds)))) [0..<length ds],
      m(textChunkId \<mapsto> e\<lparr>ctext := Some (t @ concat ds)\<rparr>), ord)"
proof (induction ds arbitrary: m e t)
  case Nil
  then show ?case by (simp add: fun_upd_idem)
next
  case (Cons d ds)
  have step: "processStreamEvent (TextDelta d) m ord =
      (Some (Update textChunkId (PatchText (t @ d))),
       m(textChunkId \<mapsto> e\<lparr>ctext := Some (t @ d)\<rparr>), ord)"
    using Cons.prems by (simp add: textOf_def Let_def)
  have rest: "runAggregator (map TextDelta ds) (m(textChunkId \<mapsto> e\<lparr>ctext := Some (t @ d)\<rparr>)) ord =
     (map (\<lambda>n. Update textChunkId (PatchText (t @ d @ concat (take (Suc n) ds)))) [0..<length ds],
      m(textChunkId \<mapsto> e\<lparr>ctext := Some (t @ d @ concat ds)\<rparr>), ord)"
    using Cons.IH [of "m(textChunkId \<mapsto> e\<lparr>ctext := Some (t @ d)\<rparr>)"
        "e\<lparr>ctext := Some (t @ d)\<rparr>" "t @ d"] Cons.prems
    by simp
  have idx: "[0..<length (d # ds)] = 0 # map Suc [0..<length ds]"
    by (simp add: upt_conv_Cons map_Suc_upt del: upt_Suc)
  show ?case
    unfolding idx by (simp add: step rest comp_def del: processStreamEvent.simps)
qed

text \<open>
  Claim C4. An answer that consists of one or more \<^verbatim>\<open>text.delta\<close> events: the first event
  gives an \<^verbatim>\<open>add\<close> of a text chunk whose id is the sentinel \<^verbatim>\<open>__text__\<close> and whose text is
  the first delta; the event number \<open>n + 2\<close> gives an \<^verbatim>\<open>update\<close> of that id carrying the
  text accumulated so far; the stored chunk list holds exactly one chunk, the text chunk,
  and its text is the concatenation of all deltas in arrival order.
\<close>

theorem text_deltas_one_chunk:
  "answer (map TextDelta (d # ds)) =
     (Add \<lparr>ctype = Text, cid = ''__text__'', ctext = Some d,
           toolName = None, cstate = None, filePath = None\<rparr> #
        map (\<lambda>n. Update ''__text__'' (PatchText (concat (take (Suc (Suc n)) (d # ds)))))
          [0..<length ds],
      [Some \<lparr>ctype = Text, cid = ''__text__'', ctext = Some (concat (d # ds)),
             toolName = None, cstate = None, filePath = None\<rparr>])"
proof -
  let ?c = "\<lparr>ctype = Text, cid = textChunkId, ctext = Some d,
             toolName = None, cstate = None, filePath = None\<rparr>"
  have first: "processStreamEvent (TextDelta d) Map.empty [] =
      (Some (Add ?c), [textChunkId \<mapsto> ?c], [textChunkId])"
    by (simp add: Let_def)
  have rest: "runAggregator (map TextDelta ds) [textChunkId \<mapsto> ?c] [textChunkId] =
     (map (\<lambda>n. Update textChunkId (PatchText (d @ concat (take (Suc n) ds)))) [0..<length ds],
      [textChunkId \<mapsto> ?c\<lparr>ctext := Some (d @ concat ds)\<rparr>], [textChunkId])"
    using text_run_existing [of "[textChunkId \<mapsto> ?c]" ?c d ds "[textChunkId]"] by simp
  have "answer (map TextDelta (d # ds)) =
     (Add ?c # map (\<lambda>n. Update textChunkId (PatchText (d @ concat (take (Suc n) ds)))) [0..<length ds],
      [Some (?c\<lparr>ctext := Some (d @ concat ds)\<rparr>)])"
    by (simp add: answer_def chunkList_def first rest del: processStreamEvent.simps)
  then show ?thesis by (simp add: textChunkId_def)
qed

subsection \<open>A run of tool updates for one call\<close>

lemma tool_run_existing:
  "m callID = Some e \<Longrightarrow> ctype e = Tool \<Longrightarrow>
   runAggregator (map (\<lambda>(tool, status). ToolUpdated callID tool status) evs) m ord =
     (map (\<lambda>(tool, status). Update callID (PatchState (toolStatus status))) evs,
      (if evs = [] then m
       else m(callID \<mapsto> e\<lparr>cstate := Some (toolStatus (snd (last evs)))\<rparr>)), ord)"
proof (induction evs arbitrary: m e)
  case Nil
  then show ?case by simp
next
  case (Cons ev evs)
  obtain tool status where ev: "ev = (tool, status)" by (cases ev)
  have step: "processStreamEvent (ToolUpdated callID tool status) m ord =
      (Some (Update callID (PatchState (toolStatus status))),
       m(callID \<mapsto> e\<lparr>cstate := Some (toolStatus status)\<rparr>), ord)"
    using Cons.prems by (simp add: Let_def)
  have rest: "runAggregator (map (\<lambda>(tool, status). ToolUpdated callID tool status) evs)
       (m(callID \<mapsto> e\<lparr>cstate := Some (toolStatus status)\<rparr>)) ord =
     (map (\<lambda>(tool, status). Update callID (PatchState (toolStatus status))) evs,
      (if evs = [] then m(callID \<mapsto> e\<lparr>cstate := Some (toolStatus status)\<rparr>)
       else m(callID \<mapsto> e\<lparr>cstate := Some (toolStatus (snd (last evs)))\<rparr>)), ord)"
    using Cons.IH [of "m(callID \<mapsto> e\<lparr>cstate := Some (toolStatus status)\<rparr>)"
        "e\<lparr>cstate := Some (toolStatus status)\<rparr>"] Cons.prems
    by simp
  show ?case
    by (simp add: ev step rest del: processStreamEvent.simps)
qed

text \<open>
  Claim C5. An answer that consists of \<^verbatim>\<open>tool.updated\<close> events for one call id: the
  first event gives an \<^verbatim>\<open>add\<close> of a tool chunk with that call id, the event's tool name
  and the mapped status; every later event gives an \<^verbatim>\<open>update\<close> of that id whose partial
  chunk holds the mapped status only, so the stored chunk keeps the tool name of the first
  event whatever tool names the later events carry, and a reducer that merges the partial
  chunk keeps the tool name too. The status \<^verbatim>\<open>pending\<close> maps to pending, \<^verbatim>\<open>running\<close> to
  running, and every other status, \<^verbatim>\<open>error\<close> among them, to completed.
\<close>

theorem tool_updates_one_chunk:
  "answer (map (\<lambda>(tool, status). ToolUpdated callID tool status) ((tool, status) # evs)) =
     (Add \<lparr>ctype = Tool, cid = callID, ctext = None, toolName = Some tool,
           cstate = Some (toolStatus status), filePath = None\<rparr> #
        map (\<lambda>(tool', status'). Update callID (PatchState (toolStatus status'))) evs,
      [Some \<lparr>ctype = Tool, cid = callID, ctext = None, toolName = Some tool,
             cstate = Some (toolStatus (snd (last ((tool, status) # evs)))),
             filePath = None\<rparr>])
   \<and> toolName (mergeChunk c (PatchState s)) = toolName c
   \<and> toolStatus ''pending'' = Pending
   \<and> toolStatus ''running'' = Running
   \<and> toolStatus ''error'' = Completed
   \<and> (toolStatus x = Completed) = (x \<noteq> ''pending'' \<and> x \<noteq> ''running'')"
proof -
  let ?c = "\<lparr>ctype = Tool, cid = callID, ctext = None, toolName = Some tool,
             cstate = Some (toolStatus status), filePath = None\<rparr>"
  have first: "processStreamEvent (ToolUpdated callID tool status) Map.empty [] =
      (Some (Add ?c), [callID \<mapsto> ?c], [callID])"
    by (simp add: Let_def)
  have rest: "runAggregator (map (\<lambda>(tool, status). ToolUpdated callID tool status) evs)
        [callID \<mapsto> ?c] [callID] =
     (map (\<lambda>(tool, status). Update callID (PatchState (toolStatus status))) evs,
      [callID \<mapsto> ?c\<lparr>cstate := Some (toolStatus (snd (last ((tool, status) # evs))))\<rparr>],
      [callID])"
    using tool_run_existing [of "[callID \<mapsto> ?c]" callID ?c evs "[callID]"] by simp
  have run: "answer (map (\<lambda>(tool, status). ToolUpdated callID tool status) ((tool, status) # evs)) =
     (Add ?c # map (\<lambda>(tool', status'). Update callID (PatchState (toolStatus status'))) evs,
      [Some (?c\<lparr>cstate := Some (toolStatus (snd (last ((tool, status) # evs))))\<rparr>)])"
    by (simp add: answer_def chunkList_def first rest del: processStreamEvent.simps)
  have status: "(toolStatus x = Completed) = (x \<noteq> ''pending'' \<and> x \<noteq> ''running'')"
    by (simp add: toolStatus_def)
  show ?thesis
    using run status by (simp add: toolStatus_def)
qed

text \<open>The sequence pending, running, completed of the specification, on one call id.\<close>

theorem tool_updates_one_chunk_witness:
  "answer [ToolUpdated ''call_1'' ''grep'' ''pending'', ToolUpdated ''call_1'' ''read'' ''running'',
           ToolUpdated ''call_1'' ''grep'' ''completed''] =
     ([Add \<lparr>ctype = Tool, cid = ''call_1'', ctext = None, toolName = Some ''grep'',
            cstate = Some Pending, filePath = None\<rparr>,
       Update ''call_1'' (PatchState Running), Update ''call_1'' (PatchState Completed)],
      [Some \<lparr>ctype = Tool, cid = ''call_1'', ctext = None, toolName = Some ''grep'',
             cstate = Some Completed, filePath = None\<rparr>])"
  using tool_updates_one_chunk [of "''call_1''" "''grep''" "''pending''"
      "[(''read'', ''running''), (''grep'', ''completed'')]"]
  by (simp add: toolStatus_def)

subsection \<open>The reducer against the aggregator\<close>

lemma map_upd_fresh: "i \<notin> set ord \<Longrightarrow> map (m(i \<mapsto> c)) ord = map m ord"
  by (induction ord) auto

lemma merge_in_place:
  "\<forall>j c. m j = Some c \<longrightarrow> cid c = j \<Longrightarrow> map Some cs = map m ord \<Longrightarrow> m i = Some ex \<Longrightarrow>
   map Some (map (\<lambda>c. if cid c \<noteq> i then c else f c) cs) = map (m(i \<mapsto> f ex)) ord"
proof (induction cs arbitrary: ord)
  case Nil
  then show ?case by simp
next
  case (Cons c cs)
  then obtain j ord' where ord: "ord = j # ord'" and c: "m j = Some c" and rest: "map Some cs = map m ord'"
    by (cases ord) auto
  from Cons.prems(1) c have "cid c = j" by blast
  moreover have "map Some (map (\<lambda>c. if cid c \<noteq> i then c else f c) cs) = map (m(i \<mapsto> f ex)) ord'"
    using Cons.IH [OF Cons.prems(1) rest Cons.prems(3)] .
  ultimately show ?case
    using c Cons.prems(3) by (auto simp: ord)
qed

lemma inSync_add:
  assumes "inSync m ord cs" and "m i = None" and "cid c = i" and "ctype c = typeOfId i"
  shows "inSync (m(i \<mapsto> c)) (ord @ [i]) (cs @ [c])"
proof -
  from assms(1,2) have fresh: "i \<notin> set ord"
    by (auto simp: inSync_def)
  have "map (m(i \<mapsto> c)) ord = map m ord"
    using fresh by (rule map_upd_fresh)
  then show ?thesis
    using assms fresh by (auto simp: inSync_def fun_upd_apply split: if_splits)
qed

lemma inSync_update:
  assumes "inSync m ord cs" and "m i = Some ex" and "cid (f ex) = cid ex" and "ctype (f ex) = ctype ex"
  shows "inSync (m(i \<mapsto> f ex)) ord (map (\<lambda>c. if cid c \<noteq> i then c else f c) cs)"
proof -
  have ids: "\<forall>j c. m j = Some c \<longrightarrow> cid c = j"
    using assms(1) by (simp add: inSync_def)
  have "map Some (map (\<lambda>c. if cid c \<noteq> i then c else f c) cs) = map (m(i \<mapsto> f ex)) ord"
    using ids assms(1,2) by (intro merge_in_place) (auto simp: inSync_def)
  moreover have "dom (m(i \<mapsto> f ex)) = set ord"
    using assms(1,2) by (auto simp: inSync_def)
  ultimately show ?thesis
    using assms by (auto simp: inSync_def fun_upd_apply split: if_splits)
qed

lemma inSync_typed: "inSync m ord cs \<Longrightarrow> m i = Some c \<Longrightarrow> ctype c = typeOfId i"
  by (simp add: inSync_def)

lemma inSync_step:
  assumes "inSync m ord cs" and "sentinelFree e" and "processStreamEvent e m ord = (u, m', ord')"
  shows "inSync m' ord' (case u of None \<Rightarrow> cs | Some x \<Rightarrow> applyUpdate cs x)"
proof (cases e)
  case (TextDelta d)
  show ?thesis
  proof (cases "m textChunkId")
    case None
    then show ?thesis
      using assms TextDelta by (auto simp: Let_def typeOfId_def intro!: inSync_add)
  next
    case (Some ex)
    then have "ctype ex = Text"
      using inSync_typed [OF assms(1)] by (simp add: typeOfId_def)
    moreover have "inSync (m(textChunkId \<mapsto> (\<lambda>c. mergeChunk c (PatchText (textOf ex @ d))) ex)) ord
       (map (\<lambda>c. if cid c \<noteq> textChunkId then c else (\<lambda>c. mergeChunk c (PatchText (textOf ex @ d))) c) cs)"
      using assms(1) Some by (rule inSync_update) simp_all
    ultimately show ?thesis
      using assms Some TextDelta by (auto simp: Let_def)
  qed
next
  case (ReasoningDelta d)
  show ?thesis
  proof (cases "m reasoningChunkId")
    case None
    then show ?thesis
      using assms ReasoningDelta
      by (auto simp: Let_def typeOfId_def textChunkId_def reasoningChunkId_def intro!: inSync_add)
  next
    case (Some ex)
    then have "ctype ex = Reasoning"
      using inSync_typed [OF assms(1)] by (simp add: typeOfId_def textChunkId_def reasoningChunkId_def)
    moreover have "inSync (m(reasoningChunkId \<mapsto> (\<lambda>c. mergeChunk c (PatchText (textOf ex @ d))) ex)) ord
       (map (\<lambda>c. if cid c \<noteq> reasoningChunkId then c else (\<lambda>c. mergeChunk c (PatchText (textOf ex @ d))) c) cs)"
      using assms(1) Some by (rule inSync_update) simp_all
    ultimately show ?thesis
      using assms Some ReasoningDelta by (auto simp: Let_def)
  qed
next
  case (ToolUpdated callID tool status)
  then have free: "callID \<noteq> textChunkId" "callID \<noteq> reasoningChunkId"
    using assms(2) by (simp_all add: sentinelFree_def)
  show ?thesis
  proof (cases "m callID")
    case None
    then show ?thesis
      using assms ToolUpdated free by (auto simp: Let_def typeOfId_def intro!: inSync_add)
  next
    case (Some ex)
    then have "ctype ex = Tool"
      using inSync_typed [OF assms(1)] free by (simp add: typeOfId_def)
    moreover have "inSync (m(callID \<mapsto> (\<lambda>c. mergeChunk c (PatchState (toolStatus status))) ex)) ord
       (map (\<lambda>c. if cid c \<noteq> callID then c else (\<lambda>c. mergeChunk c (PatchState (toolStatus status))) c) cs)"
      using assms(1) Some by (rule inSync_update) simp_all
    ultimately show ?thesis
      using assms Some ToolUpdated by (auto simp: Let_def)
  qed
qed (use assms in auto)

lemma inSync_run:
  "inSync m ord cs \<Longrightarrow> list_all sentinelFree es \<Longrightarrow> runAggregator es m ord = (us, m', ord') \<Longrightarrow>
   inSync m' ord' (foldl applyUpdate cs us)"
proof (induction es arbitrary: m ord cs us)
  case Nil
  then show ?case by simp
next
  case (Cons e es)
  obtain u m1 ord1 where step: "processStreamEvent e m ord = (u, m1, ord1)"
    by (cases "processStreamEvent e m ord") auto
  obtain us1 where rest: "runAggregator es m1 ord1 = (us1, m', ord')"
    and us: "us = (case u of None \<Rightarrow> us1 | Some x \<Rightarrow> x # us1)"
    using Cons.prems(3) step by (auto split: prod.splits simp del: processStreamEvent.simps)
  have "inSync m1 ord1 (case u of None \<Rightarrow> cs | Some x \<Rightarrow> applyUpdate cs x)"
    using Cons.prems(1,2) step by (intro inSync_step [of m ord cs e]) simp_all
  then have "inSync m' ord' (foldl applyUpdate (case u of None \<Rightarrow> cs | Some x \<Rightarrow> applyUpdate cs x) us1)"
    using Cons.prems(2) rest by (intro Cons.IH) simp_all
  then show ?case
    by (simp add: us split: option.splits)
qed

text \<open>
  For events that are free of sentinel call ids, the reducer that replays the updates ends
  with the chunk list the aggregator stores, and the ids of that list are distinct.
\<close>

lemma replay_refines_aggregator:
  assumes "list_all sentinelFree es"
  shows "snd (answer es) = map Some (replay (fst (answer es)))"
    and "distinct (map cid (replay (fst (answer es))))"
proof -
  obtain us m ord where run: "runAggregator es Map.empty [] = (us, m, ord)"
    by (cases "runAggregator es Map.empty []") auto
  have "inSync Map.empty [] []"
    by (simp add: inSync_def)
  then have sync: "inSync m ord (replay us)"
    unfolding replay_def using assms run by (rule inSync_run)
  have ans: "answer es = (us, chunkList m ord)"
    by (simp add: answer_def run)
  show "snd (answer es) = map Some (replay (fst (answer es)))"
    using sync by (simp add: ans chunkList_def inSync_def)
  have "map cid (replay us) = ord"
  proof -
    have "map (map_option cid) (map Some (replay us)) = map (map_option cid) (map m ord)"
      using sync by (simp add: inSync_def)
    moreover have "map_option cid (m x) = Some x" if "x \<in> set ord" for x
    proof -
      from that sync have "x \<in> dom m" by (simp add: inSync_def)
      then obtain z where z: "m x = Some z" by blast
      with sync have "cid z = x" by (simp add: inSync_def)
      with z show ?thesis by simp
    qed
    then have "map (map_option cid) (map m ord) = map Some ord"
      by simp
    ultimately have "map Some (map cid (replay us)) = map Some ord"
      by (simp add: comp_def)
    then show ?thesis
      using inj_map_eq_map [of Some "map cid (replay us)" ord] by (simp del: map_map)
  qed
  then show "distinct (map cid (replay (fst (answer es))))"
    using sync by (simp add: ans inSync_def)
qed

lemma chunkOrder_step: "processStreamEvent e m ord = (u, m', ord') \<Longrightarrow> \<exists>ys. ord' = ord @ ys"
  by (cases e) (auto simp: Let_def split: option.splits if_splits)

lemma chunkOrder_grows: "runAggregator es m ord = (us, m', ord') \<Longrightarrow> \<exists>ys. ord' = ord @ ys"
proof (induction es arbitrary: m ord us)
  case Nil
  then show ?case by simp
next
  case (Cons e es)
  obtain u m1 ord1 where step: "processStreamEvent e m ord = (u, m1, ord1)"
    by (cases "processStreamEvent e m ord") auto
  obtain us1 where rest: "runAggregator es m1 ord1 = (us1, m', ord')"
    using Cons.prems step by (auto split: prod.splits simp del: processStreamEvent.simps)
  from chunkOrder_step [OF step] Cons.IH [OF rest] show ?case
    by auto
qed

lemma runAggregator_append:
  "runAggregator (es1 @ es2) m ord =
     (case runAggregator es1 m ord of
        (us1, m1, ord1) \<Rightarrow>
          (case runAggregator es2 m1 ord1 of (us2, final) \<Rightarrow> (us1 @ us2, final)))"
  by (induction es1 arbitrary: m ord)
    (auto split: prod.splits option.splits simp del: processStreamEvent.simps)

text \<open>
  For such events the ids and types of the chunks stored after a prefix of the events are
  those of the same positions after the whole sequence.
\<close>

lemma types_stable:
  assumes "list_all sentinelFree (es1 @ es2)"
  shows "map (map_option (\<lambda>c. (cid c, ctype c))) (snd (answer es1)) =
         take (length (snd (answer es1)))
           (map (map_option (\<lambda>c. (cid c, ctype c))) (snd (answer (es1 @ es2))))"
proof -
  obtain us1 m1 ord1 where run1: "runAggregator es1 Map.empty [] = (us1, m1, ord1)"
    by (cases "runAggregator es1 Map.empty []") auto
  obtain us2 m2 ord2 where run2: "runAggregator es2 m1 ord1 = (us2, m2, ord2)"
    by (cases "runAggregator es2 m1 ord1") auto
  have run: "runAggregator (es1 @ es2) Map.empty [] = (us1 @ us2, m2, ord2)"
    by (simp add: runAggregator_append run1 run2)
  have start: "inSync Map.empty [] []"
    by (simp add: inSync_def)
  have sync1: "inSync m1 ord1 (foldl applyUpdate [] us1)"
    using start assms run1 by (intro inSync_run [of Map.empty "[]" "[]" es1]) simp_all
  have sync2: "inSync m2 ord2 (foldl applyUpdate [] (us1 @ us2))"
    using start assms run by (intro inSync_run [of Map.empty "[]" "[]" "es1 @ es2"]) simp_all
  have typed: "map (map_option (\<lambda>c. (cid c, ctype c))) (map m ord) = map (\<lambda>i. Some (i, typeOfId i)) ord"
    if "inSync m ord cs" for m ord cs
  proof -
    have "map_option (\<lambda>c. (cid c, ctype c)) (m x) = Some (x, typeOfId x)" if "x \<in> set ord" for x
    proof -
      from that \<open>inSync m ord cs\<close> have "x \<in> dom m" by (simp add: inSync_def)
      then obtain z where z: "m x = Some z" by blast
      with \<open>inSync m ord cs\<close> have "cid z = x" "ctype z = typeOfId x" by (simp_all add: inSync_def)
      with z show ?thesis by simp
    qed
    then show ?thesis by simp
  qed
  obtain ys where ys: "ord2 = ord1 @ ys"
    using chunkOrder_grows [OF run2] by blast
  have t1: "map (map_option (\<lambda>c. (cid c, ctype c))) (chunkList m1 ord1) =
      map (\<lambda>i. Some (i, typeOfId i)) ord1"
    unfolding chunkList_def by (rule typed [OF sync1])
  have t2: "map (map_option (\<lambda>c. (cid c, ctype c))) (chunkList m2 ord2) =
      map (\<lambda>i. Some (i, typeOfId i)) ord2"
    unfolding chunkList_def by (rule typed [OF sync2])
  have len: "length (chunkList m1 ord1) = length ord1"
    by (simp add: chunkList_def)
  show ?thesis
    by (simp add: answer_def run run1 t1 t2 [unfolded ys] len ys)
qed

text \<open>
  Claim C1. The claim is that for every sequence of events the reducer that replays the
  emitted updates ends with the chunk list the aggregator stores. It holds for the
  sequences without a sentinel call id (\<open>replay_refines_aggregator\<close>). A tool event
  whose call id is \<^verbatim>\<open>__text__\<close>, followed by a text delta, breaks it: the aggregator finds
  a tool chunk under the sentinel id, takes the \<^verbatim>\<open>else\<close> branch, overwrites the map entry
  and pushes the id a second time, so it stores the text chunk twice, while the reducer
  holds the tool chunk and the text chunk.
\<close>

theorem sentinel_collision_diverges:
  "answer [ToolUpdated ''__text__'' ''grep'' ''pending'', TextDelta ''hi''] =
     ([Add \<lparr>ctype = Tool, cid = ''__text__'', ctext = None, toolName = Some ''grep'',
            cstate = Some Pending, filePath = None\<rparr>,
       Add \<lparr>ctype = Text, cid = ''__text__'', ctext = Some ''hi'', toolName = None,
            cstate = None, filePath = None\<rparr>],
      [Some \<lparr>ctype = Text, cid = ''__text__'', ctext = Some ''hi'', toolName = None,
             cstate = None, filePath = None\<rparr>,
       Some \<lparr>ctype = Text, cid = ''__text__'', ctext = Some ''hi'', toolName = None,
             cstate = None, filePath = None\<rparr>])
   \<and> replay (fst (answer [ToolUpdated ''__text__'' ''grep'' ''pending'', TextDelta ''hi''])) =
      [\<lparr>ctype = Tool, cid = ''__text__'', ctext = None, toolName = Some ''grep'',
        cstate = Some Pending, filePath = None\<rparr>,
       \<lparr>ctype = Text, cid = ''__text__'', ctext = Some ''hi'', toolName = None,
        cstate = None, filePath = None\<rparr>]
   \<and> snd (answer [ToolUpdated ''__text__'' ''grep'' ''pending'', TextDelta ''hi'']) \<noteq>
      map Some (replay (fst (answer [ToolUpdated ''__text__'' ''grep'' ''pending'', TextDelta ''hi''])))"
  by (simp add: answer_def chunkList_def replay_def Let_def textChunkId_def toolStatus_def)

text \<open>
  Claim C6. The claim is that chunk ids are unique in the stored list and that the type of
  a chunk never changes, also when a call id collides with a sentinel id. It holds without
  a collision (\<open>replay_refines_aggregator\<close>, \<open>types_stable\<close>). On the colliding input the
  stored list holds the id \<^verbatim>\<open>__text__\<close> twice, and the first entry, a tool chunk after the
  first event, is a text chunk after the second.
\<close>

theorem sentinel_collision_repeats_id:
  "map (map_option (\<lambda>c. (cid c, ctype c)))
     (snd (answer [ToolUpdated ''__text__'' ''grep'' ''pending''])) =
     [Some (''__text__'', Tool)]
   \<and> map (map_option (\<lambda>c. (cid c, ctype c)))
     (snd (answer [ToolUpdated ''__text__'' ''grep'' ''pending'', TextDelta ''hi''])) =
     [Some (''__text__'', Text), Some (''__text__'', Text)]
   \<and> \<not> distinct (map (map_option cid)
          (snd (answer [ToolUpdated ''__text__'' ''grep'' ''pending'', TextDelta ''hi''])))"
  by (simp add: answer_def chunkList_def Let_def textChunkId_def toolStatus_def)

section \<open>Properties of the collection key\<close>

lemma sort_mset_eq: "mset xs = mset ys \<Longrightarrow> sort xs = sort (ys :: string list)"
  by (rule properties_for_sort) simp_all

text \<open>The key does not depend on the order of the names.\<close>

lemma getCollectionKey_permutation:
  "mset xs = mset ys \<Longrightarrow> getCollectionKey xs = getCollectionKey ys"
  using sort_mset_eq [of xs ys] by (simp add: getCollectionKey_def)

lemma uniqueNames_fold:
  "distinct acc \<Longrightarrow>
   distinct (foldl (\<lambda>seen n. if n \<in> set seen then seen else seen @ [n]) acc xs) \<and>
   set (foldl (\<lambda>seen n. if n \<in> set seen then seen else seen @ [n]) acc xs) = set acc \<union> set xs"
  by (induction xs arbitrary: acc) auto

lemma distinct_uniqueNames: "distinct (uniqueNames xs)"
  using uniqueNames_fold [of "[]" xs] by (simp add: uniqueNames_def)

lemma set_uniqueNames: "set (uniqueNames xs) = set xs"
  using uniqueNames_fold [of "[]" xs] by (simp add: uniqueNames_def)

lemma uniqueNames_empty: "(uniqueNames xs = []) = (xs = [])"
  using set_uniqueNames [of xs] by (metis set_empty)

text \<open>
  \<^verbatim>\<open>load\<close> removes duplicates before it computes the key, so the directory of a
  collection depends on the set of names only, whatever the collation.
\<close>

lemma loadedKey_set:
  assumes "\<And>zs. mset (localeSort sv zs) = mset zs" and "set xs = set ys"
  shows "loadedKey sv xs = loadedKey sv ys"
proof -
  have "mset (uniqueNames xs) = mset (uniqueNames ys)"
    using assms(2) set_eq_iff_mset_eq_distinct [of "uniqueNames xs" "uniqueNames ys"]
    by (simp add: distinct_uniqueNames set_uniqueNames)
  then have "mset (localeSort sv (uniqueNames xs)) = mset (localeSort sv (uniqueNames ys))"
    by (simp add: assms(1))
  then show ?thesis
    unfolding loadedKey_def by (rule getCollectionKey_permutation)
qed

text \<open>
  Claim C2. The claim is that \<^verbatim>\<open>getCollectionKey\<close> gives the same key for two name lists
  with the same set of names. It does for permutations (\<open>getCollectionKey_permutation\<close>),
  but it sorts and joins without removing duplicates: a request that names \<^verbatim>\<open>svelte\<close>
  twice gets the key \<^verbatim>\<open>svelte+svelte\<close> from \<^verbatim>\<open>questionHandler\<close>, while \<^verbatim>\<open>load\<close>, which
  removes duplicates first, builds the directory \<^verbatim>\<open>svelte\<close> for the same request.
\<close>

theorem duplicate_names_change_key:
  "set [''svelte'', ''svelte''] = set [''svelte'']
   \<and> getCollectionKey [''svelte'', ''svelte''] = ''svelte+svelte''
   \<and> getCollectionKey [''svelte''] = ''svelte''
   \<and> reportedKey [''svelte'', ''svelte''] = ''svelte+svelte''
   \<and> loadedKey exampleServices [''svelte'', ''svelte''] = ''svelte''"
proof -
  have two: "getCollectionKey [''svelte'', ''svelte''] = ''svelte+svelte''"
    by (simp add: getCollectionKey_def)
  have one: "getCollectionKey [''svelte''] = ''svelte''"
    by (simp add: getCollectionKey_def)
  have uniq: "uniqueNames [''svelte'', ''svelte''] = [''svelte'']"
    by (simp add: uniqueNames_def)
  have loaded: "loadedKey exampleServices [''svelte'', ''svelte''] = ''svelte''"
    by (simp add: loadedKey_def uniq exampleServices_def one)
  have reported: "reportedKey [''svelte'', ''svelte''] = ''svelte+svelte''"
    unfolding reportedKey_def by (rule two)
  have same: "set [''svelte'', ''svelte''] = set [''svelte'']"
    by simp
  show ?thesis
    by (simp only: same two one reported loaded simp_thms)
qed

section \<open>Properties of loading a collection\<close>

text \<open>Every error of the two loops carries its cause.\<close>

lemma loadResources_cause: "loadResources sv ns w = (Inl e, w') \<Longrightarrow> cause e \<noteq> None"
  by (induction ns arbitrary: w) (auto simp: Let_def split: sum.splits prod.splits)

lemma linkResources_cause: "linkResources sv cp rs w = (Inl e, w') \<Longrightarrow> cause e \<noteq> None"
  by (induction rs arbitrary: w) (auto simp: Let_def split: sum.splits prod.splits if_splits)

text \<open>
  Claim C9. \<^verbatim>\<open>load\<close> fails with the error "Cannot create collection with no resources"
  and leaves the world as it was, so no directory, no link, no call of a service and no
  trace entry is made, exactly when the list of names is empty; the empty list is the only
  one that de-duplicates to nothing.
\<close>

theorem load_rejects_no_names:
  "(load sv resourceNames w =
      (Inl (CollectionError ''Cannot create collection with no resources'' None), w))
     = (resourceNames = [])
   \<and> (uniqueNames resourceNames = []) = (resourceNames = [])"
proof -
  have empty: "load sv [] w =
      (Inl (CollectionError ''Cannot create collection with no resources'' None), w)"
    by (simp add: load_def uniqueNames_def)
  have other: "load sv resourceNames w \<noteq>
      (Inl (CollectionError ''Cannot create collection with no resources'' None), w)"
    if "resourceNames \<noteq> []"
  proof
    assume fails: "load sv resourceNames w =
      (Inl (CollectionError ''Cannot create collection with no resources'' None), w)"
    from that have "uniqueNames resourceNames \<noteq> []"
      by (simp add: uniqueNames_empty)
    with fails show False
      by (auto simp: load_def Let_def split: prod.splits sum.splits
          dest: loadResources_cause linkResources_cause)
  qed
  from empty other show ?thesis
    by (auto simp: uniqueNames_empty)
qed

theorem load_rejects_no_names_witness:
  "load exampleServices [] emptyWorld =
     (Inl (CollectionError ''Cannot create collection with no resources'' None), emptyWorld)
   \<and> trace (snd (load exampleServices [] emptyWorld)) = []
   \<and> entries (snd (load exampleServices [] emptyWorld)) = Map.empty"
  using load_rejects_no_names [of exampleServices "[]" emptyWorld]
  by (simp add: emptyWorld_def)

subsection \<open>Loading the same names twice\<close>


lemma loadResources_again:
  "loadResources sv ns w = (Inr rs, w') \<Longrightarrow> \<exists>v'. loadResources sv ns v = (Inr rs, v')"
proof (induction ns arbitrary: w v rs)
  case Nil
  then show ?case by simp
next
  case (Cons n ns)
  from Cons.prems obtain r rs1 where r: "resourcesLoad sv n = Inr r"
    and rest: "loadResources sv ns (w\<lparr>trace := trace w @ [LoadResource n]\<rparr>) = (Inr rs1, w')"
    and rs: "rs = r # rs1"
    by (auto simp: Let_def split: sum.splits prod.splits)
  from Cons.IH [OF rest, of "v\<lparr>trace := trace v @ [LoadResource n]\<rparr>"]
  obtain v' where "loadResources sv ns (v\<lparr>trace := trace v @ [LoadResource n]\<rparr>) = (Inr rs1, v')"
    by blast
  with r rs show ?case
    by (simp add: Let_def)
qed


















section \<open>Properties of \<^verbatim>\<open>stripJsonc\<close>\<close>

subsection \<open>Texts without comments and trailing commas\<close>

lemma stripComments_plain:
  "plainFrom l s \<Longrightarrow>
   stripComments (l \<noteq> Outside) (case l of Outside \<Rightarrow> None | Inside q e \<Rightarrow> Some q)
     (case l of Outside \<Rightarrow> False | Inside q e \<Rightarrow> e) s = s"
proof (induction s arbitrary: l)
  case Nil
  then show ?case by simp
next
  case (Cons c cs)
  show ?case
  proof (cases l)
    case Outside
    with Cons.prems have no: "\<not> commentOpener (c # cs)" and rest: "plainFrom (lexStep Outside c) cs"
      by (auto split: if_splits)
    from no have nc: "\<not> (c = CHR ''/'' \<and> (case cs of [] \<Rightarrow> None | d # _ \<Rightarrow> Some d) = Some CHR ''/'')"
      "\<not> (c = CHR ''/'' \<and> (case cs of [] \<Rightarrow> None | d # _ \<Rightarrow> Some d) = Some CHR ''*'')"
      by (auto simp: commentOpener_def split: list.splits)
    from Cons.IH [OF rest] nc show ?thesis
      by (auto simp: Outside Let_def)
  next
    case (Inside q e)
    with Cons.prems have rest: "plainFrom (lexStep (Inside q e) c) cs"
      by simp
    from Cons.IH [OF rest] show ?thesis
      by (cases e) (auto simp: Inside Let_def)
  qed
qed

lemma stripTrailingCommas_plain:
  "plainFrom l s \<Longrightarrow>
   stripTrailingCommas (l \<noteq> Outside) (case l of Outside \<Rightarrow> None | Inside q e \<Rightarrow> Some q)
     (case l of Outside \<Rightarrow> False | Inside q e \<Rightarrow> e) s = s"
proof (induction s arbitrary: l)
  case Nil
  then show ?case by simp
next
  case (Cons c cs)
  show ?case
  proof (cases l)
    case Outside
    with Cons.prems have no: "\<not> trailingComma (c # cs)" and rest: "plainFrom (lexStep Outside c) cs"
      by (auto split: if_splits)
    from no have nt: "\<not> (c = CHR '','' \<and>
        (let nextNonWs = (case dropWhile isSpace cs of [] \<Rightarrow> None | d # _ \<Rightarrow> Some d)
         in nextNonWs = Some CHR '']'' \<or> nextNonWs = Some CHR ''}''))"
      by (cases "dropWhile isSpace cs")
        (simp_all add: trailingComma_def Let_def del: dropWhile_eq_Nil_conv)
    from Cons.IH [OF rest] nt show ?thesis
      by (auto simp: Outside)
  next
    case (Inside q e)
    with Cons.prems have rest: "plainFrom (lexStep (Inside q e) c) cs"
      by simp
    from Cons.IH [OF rest] show ?thesis
      by (cases e) (auto simp: Inside Let_def)
  qed
qed

lemma stripJsonc_plain: "plainJson s \<Longrightarrow> stripJsonc s = trim s"
  using stripComments_plain [of Outside s] stripTrailingCommas_plain [of Outside s]
  by (simp add: plainJson_def stripJsonc_def)

subsection \<open>String literals\<close>

lemma jsonLiterals_Outside: "jsonLiterals Outside acc s = jsonLiterals Outside [] s"
  by (cases s) simp_all

lemma stripComments_literals:
  "jsonLiterals l acc
     (stripComments (l \<noteq> Outside) (case l of Outside \<Rightarrow> None | Inside q e \<Rightarrow> Some q)
        (case l of Outside \<Rightarrow> False | Inside q e \<Rightarrow> e) s) =
   jsoncLiterals l acc s"
proof (induction l acc s rule: jsoncLiterals.induct)
  case (1 l acc)
  then show ?case by simp
next
  case (2 l acc c cs)
  show ?case
  proof (cases l)
    case Outside
    consider (line) "take 2 (c # cs) = ''//''"
      | (block) "take 2 (c # cs) \<noteq> ''//''" "take 2 (c # cs) = ''/*''"
      | (quote) "take 2 (c # cs) \<noteq> ''//''" "take 2 (c # cs) \<noteq> ''/*''" "c = CHR 0x22 \<or> c = CHR 0x27"
      | (other) "take 2 (c # cs) \<noteq> ''//''" "take 2 (c # cs) \<noteq> ''/*''" "\<not> (c = CHR 0x22 \<or> c = CHR 0x27)"
      by blast
    then show ?thesis
    proof cases
      case line
      then have c: "c = CHR ''/''" and n: "(case cs of [] \<Rightarrow> None | d # _ \<Rightarrow> Some d) = Some CHR ''/''"
        by (auto split: list.splits)
      from "2.IH"(1) [OF Outside line] show ?thesis
        using line by (simp add: Outside c n jsonLiterals_Outside [of acc])
    next
      case block
      then have c: "c = CHR ''/''" and n: "(case cs of [] \<Rightarrow> None | d # _ \<Rightarrow> Some d) = Some CHR ''*''"
        by (auto split: list.splits)
      from "2.IH"(2) [OF Outside block] show ?thesis
        using block by (simp add: Outside c n jsonLiterals_Outside [of acc])
    next
      case quote
      then have n: "\<not> (c = CHR ''/'' \<and> (case cs of [] \<Rightarrow> None | d # _ \<Rightarrow> Some d) = Some CHR ''/'')"
        "\<not> (c = CHR ''/'' \<and> (case cs of [] \<Rightarrow> None | d # _ \<Rightarrow> Some d) = Some CHR ''*'')"
        by (auto split: list.splits)
      from "2.IH"(3) [OF Outside quote] show ?thesis
        using quote n by (auto simp: Outside Let_def)
    next
      case other
      then have n: "\<not> (c = CHR ''/'' \<and> (case cs of [] \<Rightarrow> None | d # _ \<Rightarrow> Some d) = Some CHR ''/'')"
        "\<not> (c = CHR ''/'' \<and> (case cs of [] \<Rightarrow> None | d # _ \<Rightarrow> Some d) = Some CHR ''*'')"
        by (auto split: list.splits)
      from "2.IH"(4) [OF Outside other] show ?thesis
        using other n by (auto simp: Outside Let_def)
    qed
  next
    case (Inside q e)
    show ?thesis
    proof (cases "lexStep l c = Outside")
      case True
      from "2.IH"(5) [OF Inside True] show ?thesis
        using True by (cases e) (auto simp: Inside Let_def split: if_splits)
    next
      case False
      from "2.IH"(6) [OF Inside False] show ?thesis
        using False by (cases e) (auto simp: Inside Let_def split: if_splits)
    qed
  qed
qed

lemma stripTrailingCommas_literals:
  "jsonLiterals l acc
     (stripTrailingCommas (l \<noteq> Outside) (case l of Outside \<Rightarrow> None | Inside q e \<Rightarrow> Some q)
        (case l of Outside \<Rightarrow> False | Inside q e \<Rightarrow> e) s) =
   jsonLiterals l acc s"
proof (induction s arbitrary: l acc)
  case Nil
  then show ?case by simp
next
  case (Cons c cs)
  show ?case
  proof (cases l)
    case Outside
    from Cons.IH [of Outside acc] Cons.IH [of Outside "[]"] Cons.IH [of "Inside c False" "[c]"]
    show ?thesis
      by (auto simp: Outside jsonLiterals_Outside [of acc])
  next
    case (Inside q e)
    from Cons.IH [of "lexStep l c" "acc @ [c]"] Cons.IH [of Outside "[]"] show ?thesis
      by (cases e) (auto simp: Inside)
  qed
qed

lemma isSpace_no_quote: "isSpace c \<Longrightarrow> c \<noteq> CHR 0x22 \<and> c \<noteq> CHR 0x27 \<and> c \<noteq> CHR 0x5C"
  by (auto simp: isSpace_def)

lemma jsonLiterals_dropWhile:
  "jsonLiterals Outside [] (dropWhile isSpace s) = jsonLiterals Outside [] s"
  by (induction s) (auto dest: isSpace_no_quote)

lemma properState_step: "properState l \<Longrightarrow> properState (lexStep l c)"
  by (cases "(l, c)" rule: lexStep.cases) (auto simp: properState_def)

lemma lexStep_space: "properState l \<Longrightarrow> isSpace c \<Longrightarrow> l \<noteq> Outside \<Longrightarrow> lexStep l c \<noteq> Outside"
  by (cases "(l, c)" rule: lexStep.cases) (auto simp: properState_def dest: isSpace_no_quote)

lemma jsonLiterals_spaces:
  "\<forall>c\<in>set ws. isSpace c \<Longrightarrow> properState l \<Longrightarrow> jsonLiterals l acc ws = []"
proof (induction ws arbitrary: l acc)
  case Nil
  then show ?case by simp
next
  case (Cons c ws)
  then have c: "isSpace c" "c \<noteq> CHR 0x22" "c \<noteq> CHR 0x27"
    using isSpace_no_quote [of c] by simp_all
  show ?case
  proof (cases l)
    case Outside
    with Cons c show ?thesis by simp
  next
    case (Inside q e)
    then have "lexStep l c \<noteq> Outside"
      using lexStep_space [OF Cons.prems(2) c(1)] by simp
    moreover have "jsonLiterals (lexStep l c) (acc @ [c]) ws = []"
      using Cons.prems by (intro Cons.IH properState_step) simp_all
    ultimately show ?thesis
      by (simp add: Inside)
  qed
qed

lemma jsonLiterals_append_spaces:
  "\<forall>c\<in>set ws. isSpace c \<Longrightarrow> properState l \<Longrightarrow>
   jsonLiterals l acc (s @ ws) = jsonLiterals l acc s"
proof (induction s arbitrary: l acc)
  case Nil
  then show ?case by (simp add: jsonLiterals_spaces)
next
  case (Cons c s)
  have out: "jsonLiterals Outside a (s @ ws) = jsonLiterals Outside a s" for a
    using Cons.prems(1) by (intro Cons.IH) (simp_all add: properState_def)
  have quote: "jsonLiterals (Inside c False) a (s @ ws) = jsonLiterals (Inside c False) a s"
    if "c = CHR 0x22 \<or> c = CHR 0x27" for a
    using Cons.prems(1) that by (intro Cons.IH) (simp_all add: properState_def)
  have step: "jsonLiterals (lexStep l c) a (s @ ws) = jsonLiterals (lexStep l c) a s" for a
    using Cons.prems by (intro Cons.IH properState_step) simp_all
  show ?case
  proof (cases l)
    case Outside
    then show ?thesis by (auto simp: out quote)
  next
    case (Inside q e)
    with step [of "acc @ [c]"] show ?thesis by (simp add: out)
  qed
qed

lemma jsonLiterals_trim: "jsonLiterals Outside [] (trim s) = jsonLiterals Outside [] s"
proof -
  let ?t = "dropWhile isSpace s"
  have split: "?t = trim s @ rev (takeWhile isSpace (rev ?t))"
    using takeWhile_dropWhile_id [of isSpace "rev ?t"]
    by (metis rev_append rev_rev_ident trim_def)
  have "\<forall>c\<in>set (rev (takeWhile isSpace (rev ?t))). isSpace c"
    by (auto dest: set_takeWhileD)
  then have "jsonLiterals Outside [] (trim s @ rev (takeWhile isSpace (rev ?t))) =
      jsonLiterals Outside [] (trim s)"
    by (intro jsonLiterals_append_spaces) (simp_all add: properState_def)
  with split have "jsonLiterals Outside [] ?t = jsonLiterals Outside [] (trim s)"
    by simp
  then show ?thesis
    by (simp add: jsonLiterals_dropWhile)
qed

lemma stripJsonc_literals: "jsonLiterals Outside [] (stripJsonc s) = jsoncLiterals Outside [] s"
  using stripTrailingCommas_literals [of Outside "[]" "stripComments False None False s"]
    stripComments_literals [of Outside "[]" s]
  by (simp add: stripJsonc_def jsonLiterals_trim)

subsection \<open>JSON texts are plain\<close>

lemma plainFrom_neutral: "neutral c \<Longrightarrow> plainFrom Outside (c # rest) = plainFrom Outside rest"
  by (auto simp: neutral_def commentOpener_def trailingComma_def)

lemma plainFrom_neutrals:
  "list_all neutral xs \<Longrightarrow> plainFrom Outside (xs @ rest) = plainFrom Outside rest"
  by (induction xs) (simp_all add: plainFrom_neutral del: plainFrom.simps)

lemma jsonSpace_neutral: "jsonSpace c \<Longrightarrow> neutral c"
  by (auto simp: jsonSpace_def neutral_def)

lemma jsonSpace_isSpace: "jsonSpace c \<Longrightarrow> isSpace c"
  by (auto simp: jsonSpace_def isSpace_def)

lemma plainFrom_spaces:
  "list_all jsonSpace w \<Longrightarrow> plainFrom Outside (w @ rest) = plainFrom Outside rest"
  by (rule plainFrom_neutrals) (auto simp: list_all_iff jsonSpace_neutral)

lemma hexDigit_plain: "hexDigit c \<Longrightarrow> c \<noteq> CHR 0x22 \<and> c \<noteq> CHR 0x5C"
  by (auto simp: hexDigit_def)

lemma plainFrom_chars:
  "jsonChars cs \<Longrightarrow>
   plainFrom (Inside (CHR 0x22) False) (cs @ CHR 0x22 # rest) = plainFrom Outside rest"
proof (induction cs rule: jsonChars.induct)
  case no_chars
  show ?case by simp
next
  case (unescaped c cs)
  then show ?case by simp
next
  case (escaped e cs)
  then show ?case by simp
next
  case (unicode h1 h2 h3 h4 cs)
  then show ?case
    using hexDigit_plain [of h1] hexDigit_plain [of h2] hexDigit_plain [of h3] hexDigit_plain [of h4]
    by simp
qed

lemma plainFrom_string:
  "jsonChars cs \<Longrightarrow>
   plainFrom Outside (CHR 0x22 # cs @ CHR 0x22 # rest) = plainFrom Outside rest"
  by (simp add: plainFrom_chars commentOpener_def trailingComma_def)

lemma digit_numChar: "digit c \<Longrightarrow> numChar c"
  by (auto simp: digit_def numChar_def)

lemma digits_numChars: "list_all digit ds \<Longrightarrow> list_all numChar ds"
  by (auto simp: list_all_iff digit_numChar)

lemma jsonInt_chars: "jsonInt ds \<Longrightarrow> ds \<noteq> [] \<and> list_all numChar ds"
  by (auto simp: jsonInt_def digits_numChars) (simp add: numChar_def)

lemma jsonFrac_chars: "jsonFrac f \<Longrightarrow> list_all numChar f"
  by (auto simp: jsonFrac_def digits_numChars) (simp add: numChar_def)

lemma jsonExp_chars: "jsonExp x \<Longrightarrow> list_all numChar x"
  by (auto simp: jsonExp_def digits_numChars) (simp_all add: numChar_def)

lemma jsonNumber_chars: "jsonNumber n \<Longrightarrow> n \<noteq> [] \<and> list_all numChar n"
proof -
  assume "jsonNumber n"
  then obtain minus whole f x where n: "n = minus @ whole @ f @ x"
    and minus: "minus = [] \<or> minus = ''-''"
    and parts: "jsonInt whole" "jsonFrac f" "jsonExp x"
    by (auto simp: jsonNumber_def)
  from minus have "list_all numChar minus"
    by (auto simp: numChar_def)
  with parts show ?thesis
    by (simp add: n jsonInt_chars jsonFrac_chars jsonExp_chars)
qed

lemma numChar_plain:
  "numChar c \<Longrightarrow> neutral c \<and> \<not> isSpace c \<and> c \<noteq> CHR '']'' \<and> c \<noteq> CHR ''}''"
  by (auto simp: numChar_def neutral_def isSpace_def)

lemma solid_number: "jsonNumber n \<Longrightarrow> solid n \<and> list_all neutral n"
proof -
  assume "jsonNumber n"
  then have n: "n \<noteq> []" "list_all numChar n"
    by (simp_all add: jsonNumber_chars)
  then have "numChar (hd n)" "numChar (last n)"
    by (simp_all add: list_all_iff)
  moreover have "list_all neutral n"
    using n(2) by (auto simp: list_all_iff numChar_plain)
  ultimately show ?thesis
    using n(1) by (simp add: solid_def numChar_plain)
qed

lemma leads_solid: "solid v \<Longrightarrow> leads (v @ y)"
  by (cases v) (auto simp: solid_def leads_def trailingComma_def)

lemma leads_spaces: "list_all jsonSpace w \<Longrightarrow> leads x \<Longrightarrow> leads (w @ x)"
  by (induction w) (auto simp: leads_def trailingComma_def jsonSpace_isSpace)

lemma leads_quote: "leads (CHR 0x22 # y)"
  by (simp add: leads_def trailingComma_def isSpace_def)

lemma plainFrom_comma:
  "leads x \<Longrightarrow> plainFrom Outside (CHR '','' # x @ rest) = plainFrom Outside (x @ rest)"
  by (simp add: leads_def commentOpener_def)

lemma json_plain:
  "jsonValue v \<Longrightarrow> (\<forall>rest. plainFrom Outside (v @ rest) = plainFrom Outside rest) \<and> solid v"
  "jsonElements es \<Longrightarrow> (\<forall>rest. plainFrom Outside (es @ rest) = plainFrom Outside rest) \<and> leads es"
  "jsonMembers ms \<Longrightarrow> (\<forall>rest. plainFrom Outside (ms @ rest) = plainFrom Outside rest) \<and> leads ms"
proof (induction rule: jsonValue_jsonElements_jsonMembers.inducts)
  case null
  have "list_all neutral ''null''" by (simp add: neutral_def)
  then have "\<forall>rest. plainFrom Outside (''null'' @ rest) = plainFrom Outside rest"
    by (intro allI plainFrom_neutrals)
  moreover have "solid ''null''"
    by (simp add: solid_def isSpace_def)
  ultimately show ?case by (rule conjI)
next
  case true
  have "list_all neutral ''true''" by (simp add: neutral_def)
  then have "\<forall>rest. plainFrom Outside (''true'' @ rest) = plainFrom Outside rest"
    by (intro allI plainFrom_neutrals)
  moreover have "solid ''true''"
    by (simp add: solid_def isSpace_def)
  ultimately show ?case by (rule conjI)
next
  case false
  have "list_all neutral ''false''" by (simp add: neutral_def)
  then have "\<forall>rest. plainFrom Outside (''false'' @ rest) = plainFrom Outside rest"
    by (intro allI plainFrom_neutrals)
  moreover have "solid ''false''"
    by (simp add: solid_def isSpace_def)
  ultimately show ?case by (rule conjI)
next
  case (number n)
  then show ?case
    using solid_number [of n] by (simp add: plainFrom_neutrals)
next
  case (string cs)
  have "plainFrom Outside ((CHR 0x22 # cs @ [CHR 0x22]) @ rest) = plainFrom Outside rest" for rest
    using plainFrom_string [OF string, of rest] by simp
  then show ?case
    by (simp add: solid_def isSpace_def del: plainFrom.simps)
next
  case (empty_array w)
  then have "list_all neutral w"
    by (auto simp: list_all_iff jsonSpace_neutral)
  then have "list_all neutral (CHR ''['' # w @ '']'')"
    by (simp add: neutral_def)
  then have "\<forall>rest. plainFrom Outside ((CHR ''['' # w @ '']'') @ rest) = plainFrom Outside rest"
    by (intro allI plainFrom_neutrals)
  moreover have "solid (CHR ''['' # w @ '']'')"
    by (simp add: solid_def isSpace_def)
  ultimately show ?case by (rule conjI)
next
  case (array es)
  have "plainFrom Outside ((CHR ''['' # es @ '']'') @ rest) = plainFrom Outside rest" for rest
  proof -
    have "plainFrom Outside ((CHR ''['' # es @ '']'') @ rest) =
        plainFrom Outside (es @ CHR '']'' # rest)"
      using plainFrom_neutral [of "CHR ''[''" "es @ CHR '']'' # rest"] by (simp add: neutral_def)
    also have "\<dots> = plainFrom Outside (CHR '']'' # rest)"
      using array.IH by blast
    also have "\<dots> = plainFrom Outside rest"
      by (rule plainFrom_neutral) (simp add: neutral_def)
    finally show ?thesis .
  qed
  then show ?case
    by (simp add: solid_def isSpace_def del: plainFrom.simps)
next
  case (empty_object w)
  then have "list_all neutral w"
    by (auto simp: list_all_iff jsonSpace_neutral)
  then have "list_all neutral (CHR ''{'' # w @ ''}'')"
    by (simp add: neutral_def)
  then have "\<forall>rest. plainFrom Outside ((CHR ''{'' # w @ ''}'') @ rest) = plainFrom Outside rest"
    by (intro allI plainFrom_neutrals)
  moreover have "solid (CHR ''{'' # w @ ''}'')"
    by (simp add: solid_def isSpace_def)
  ultimately show ?case by (rule conjI)
next
  case (object ms)
  have "plainFrom Outside ((CHR ''{'' # ms @ ''}'') @ rest) = plainFrom Outside rest" for rest
  proof -
    have "plainFrom Outside ((CHR ''{'' # ms @ ''}'') @ rest) =
        plainFrom Outside (ms @ CHR ''}'' # rest)"
      using plainFrom_neutral [of "CHR ''{''" "ms @ CHR ''}'' # rest"] by (simp add: neutral_def)
    also have "\<dots> = plainFrom Outside (CHR ''}'' # rest)"
      using object.IH by blast
    also have "\<dots> = plainFrom Outside rest"
      by (rule plainFrom_neutral) (simp add: neutral_def)
    finally show ?thesis .
  qed
  then show ?case
    by (simp add: solid_def isSpace_def del: plainFrom.simps)
next
  case (element w1 v w2)
  then have v: "\<And>rest. plainFrom Outside (v @ rest) = plainFrom Outside rest" and "solid v"
    by blast+
  have "plainFrom Outside ((w1 @ v @ w2) @ rest) = plainFrom Outside rest" for rest
    by (simp add: plainFrom_spaces element.hyps v del: plainFrom.simps)
  moreover have "leads (w1 @ v @ w2)"
    using element.hyps \<open>solid v\<close> by (intro leads_spaces leads_solid)
  ultimately show ?case by blast
next
  case (elements w1 v w2 es)
  then have v: "\<And>rest. plainFrom Outside (v @ rest) = plainFrom Outside rest" and "solid v"
    and es: "\<And>rest. plainFrom Outside (es @ rest) = plainFrom Outside rest" and "leads es"
    by blast+
  have "plainFrom Outside ((w1 @ v @ w2 @ CHR '','' # es) @ rest) = plainFrom Outside rest" for rest
    using plainFrom_comma [OF \<open>leads es\<close>, of rest]
    by (simp add: plainFrom_spaces elements.hyps v es del: plainFrom.simps)
  moreover have "leads (w1 @ v @ w2 @ CHR '','' # es)"
    using elements.hyps \<open>solid v\<close> by (intro leads_spaces leads_solid)
  ultimately show ?case by blast
next
  case (member w1 k w2 w3 v w4)
  then have v: "\<And>rest. plainFrom Outside (v @ rest) = plainFrom Outside rest"
    by blast
  have colon: "plainFrom Outside (CHR '':'' # y) = plainFrom Outside y" for y
    by (rule plainFrom_neutral) (simp add: neutral_def)
  have "plainFrom Outside ((w1 @ CHR 0x22 # k @ CHR 0x22 # w2 @ CHR '':'' # w3 @ v @ w4) @ rest) =
      plainFrom Outside rest" for rest
    by (simp add: plainFrom_spaces plainFrom_string colon member.hyps v del: plainFrom.simps)
  moreover have "leads (w1 @ CHR 0x22 # k @ CHR 0x22 # w2 @ CHR '':'' # w3 @ v @ w4)"
    using member.hyps by (intro leads_spaces leads_quote)
  ultimately show ?case by blast
next
  case (members w1 k w2 w3 v w4 ms)
  then have v: "\<And>rest. plainFrom Outside (v @ rest) = plainFrom Outside rest"
    and ms: "\<And>rest. plainFrom Outside (ms @ rest) = plainFrom Outside rest" and "leads ms"
    by blast+
  have colon: "plainFrom Outside (CHR '':'' # y) = plainFrom Outside y" for y
    by (rule plainFrom_neutral) (simp add: neutral_def)
  have "plainFrom Outside
      ((w1 @ CHR 0x22 # k @ CHR 0x22 # w2 @ CHR '':'' # w3 @ v @ w4 @ CHR '','' # ms) @ rest) =
      plainFrom Outside rest" for rest
    using plainFrom_comma [OF \<open>leads ms\<close>, of rest]
    by (simp add: plainFrom_spaces plainFrom_string colon members.hyps v ms del: plainFrom.simps)
  moreover have "leads (w1 @ CHR 0x22 # k @ CHR 0x22 # w2 @ CHR '':'' # w3 @ v @ w4 @ CHR '','' # ms)"
    using members.hyps by (intro leads_spaces leads_quote)
  ultimately show ?case by blast
qed

lemma trim_solid:
  assumes "list_all jsonSpace w1" and "solid v" and "list_all jsonSpace w2"
  shows "trim (w1 @ v @ w2) = v"
proof -
  from assms(2) obtain c cs where v: "v = c # cs" and c: "\<not> isSpace c"
    by (cases v) (auto simp: solid_def)
  from assms(2) obtain d ds where rv: "rev v = d # ds" and d: "\<not> isSpace d"
    by (cases "rev v") (auto simp: solid_def last_rev [symmetric] simp del: last_rev)
  have "dropWhile isSpace (w1 @ v @ w2) = v @ w2"
    using assms(1) c by (simp add: dropWhile_append v list_all_iff jsonSpace_isSpace)
  moreover have "dropWhile isSpace (rev (v @ w2)) = rev v"
    using assms(3) d by (simp add: dropWhile_append rv list_all_iff jsonSpace_isSpace)
  ultimately show ?thesis
    by (simp add: trim_def)
qed

lemma json_text_plain:
  assumes "list_all jsonSpace w1" and "jsonValue v" and "list_all jsonSpace w2"
  shows "plainJson (w1 @ v @ w2)"
proof -
  have "plainFrom Outside (w1 @ v @ w2) = plainFrom Outside (v @ w2)"
    using assms(1) by (rule plainFrom_spaces)
  also have "\<dots> = plainFrom Outside w2"
    using json_plain(1) [OF assms(2)] by blast
  also have "\<dots> = plainFrom Outside []"
    using plainFrom_spaces [OF assms(3), of "[]"] by simp
  finally show ?thesis
    by (simp add: plainJson_def)
qed

lemma stripJsonc_json_text:
  assumes "list_all jsonSpace w1" and "jsonValue v" and "list_all jsonSpace w2"
  shows "stripJsonc (w1 @ v @ w2) = v"
  using stripJsonc_plain [OF json_text_plain [OF assms]] trim_solid [OF assms(1) _ assms(3)]
    json_plain(1) [OF assms(2)]
  by simp

text \<open>A JSON text to try the statements on.\<close>

lemma json_one: "jsonValue ''1''"
proof (rule jsonValue_jsonElements_jsonMembers.number)
  have "''1'' = [] @ ''1'' @ [] @ []" by simp
  moreover have "jsonInt ''1''" by (simp add: jsonInt_def digit_def)
  moreover have "jsonFrac []" by (simp add: jsonFrac_def)
  moreover have "jsonExp []" by (simp add: jsonExp_def)
  ultimately show "jsonNumber ''1''"
    unfolding jsonNumber_def by blast
qed

lemma json_example: "jsonValue (CHR ''{'' # (CHR 0x22 # ''a//b'' @ CHR 0x22 # CHR '':'' # ''[1,1]'') @ ''}'')"
proof -
  have "jsonElements ([] @ ''1'' @ [])"
    by (rule jsonValue_jsonElements_jsonMembers.element) (simp_all add: json_one)
  then have "jsonElements ([] @ ''1'' @ [] @ CHR '','' # ''1'')"
    by (intro jsonValue_jsonElements_jsonMembers.elements) (simp_all add: json_one)
  then have "jsonValue (CHR ''['' # ''1,1'' @ '']'')"
    using jsonValue_jsonElements_jsonMembers.array [of "''1,1''"] by simp
  then have arr: "jsonValue ''[1,1]''"
    by simp
  have key: "jsonChars ''a//b''"
    by (intro jsonChars.unescaped jsonChars.no_chars) simp_all
  have "jsonMembers ([] @ CHR 0x22 # ''a//b'' @ CHR 0x22 # [] @ CHR '':'' # [] @ ''[1,1]'' @ [])"
    using key arr by (intro jsonValue_jsonElements_jsonMembers.member) simp_all
  then have "jsonMembers (CHR 0x22 # ''a//b'' @ CHR 0x22 # CHR '':'' # ''[1,1]'')"
    by simp
  then show ?thesis
    by (rule jsonValue_jsonElements_jsonMembers.object)
qed

text \<open>
  Claim C10. On a text in which no comment opener and no trailing comma occurs outside a
  string literal, \<^verbatim>\<open>stripJsonc\<close> returns the text with the white space at both ends
  trimmed, so \<^verbatim>\<open>parseJsonc\<close> hands \<^verbatim>\<open>JSON.parse\<close> the trimmed text. Every JSON text, a
  JSON value between white space, is such a text, and for it the result is the value
  itself. On every text, the complete string literals of the result are those of the
  input, with every character they hold, comment openers and commas among them.
\<close>

theorem stripJsonc_keeps_plain_text:
  "(plainJson s \<longrightarrow> stripJsonc s = trim s \<and> parseJsonc jsonParse s = jsonParse (trim s))
   \<and> (list_all jsonSpace w1 \<and> jsonValue v \<and> list_all jsonSpace w2 \<longrightarrow>
        plainJson (w1 @ v @ w2) \<and> stripJsonc (w1 @ v @ w2) = v \<and>
        parseJsonc jsonParse (w1 @ v @ w2) = jsonParse v)
   \<and> jsonLiterals Outside [] (stripJsonc s) = jsoncLiterals Outside [] s"
proof -
  have plain: "stripJsonc s = trim s \<and> parseJsonc jsonParse s = jsonParse (trim s)"
    if "plainJson s"
    using that by (simp add: stripJsonc_plain parseJsonc_def)
  have json: "plainJson (w1 @ v @ w2) \<and> stripJsonc (w1 @ v @ w2) = v \<and>
      parseJsonc jsonParse (w1 @ v @ w2) = jsonParse v"
    if "list_all jsonSpace w1 \<and> jsonValue v \<and> list_all jsonSpace w2"
    using that by (simp add: json_text_plain stripJsonc_json_text parseJsonc_def)
  from plain json stripJsonc_literals [of s] show ?thesis
    by blast
qed

theorem stripJsonc_keeps_plain_text_witness:
  "plainJson '' { 'a//b': [1, 'x,]'], 'c': '/* d */' } ''
   \<and> stripJsonc '' { 'a//b': [1, 'x,]'], 'c': '/* d */' } '' =
       ''{ 'a//b': [1, 'x,]'], 'c': '/* d */' }''
   \<and> jsonLiterals Outside [] (stripJsonc '' { 'a//b': [1, 'x,]'], 'c': '/* d */' } '') =
       [[CHR 0x27] @ ''a//b'' @ [CHR 0x27], [CHR 0x27] @ ''x,]'' @ [CHR 0x27],
        [CHR 0x27] @ ''c'' @ [CHR 0x27], [CHR 0x27] @ ''/* d */'' @ [CHR 0x27]]
   \<and> stripJsonc ([CHR 0x0A] @
         (CHR ''{'' # (CHR 0x22 # ''a//b'' @ CHR 0x22 # CHR '':'' # ''[1,1]'') @ ''}'') @ '' '') =
       CHR ''{'' # (CHR 0x22 # ''a//b'' @ CHR 0x22 # CHR '':'' # ''[1,1]'') @ ''}''"
proof -
  have plain: "plainJson '' { 'a//b': [1, 'x,]'], 'c': '/* d */' } ''"
    by (simp add: plainJson_def commentOpener_def trailingComma_def isSpace_def)
  have trimmed: "trim '' { 'a//b': [1, 'x,]'], 'c': '/* d */' } '' =
      ''{ 'a//b': [1, 'x,]'], 'c': '/* d */' }''"
    by (simp add: trim_def isSpace_def)
  have lits: "jsoncLiterals Outside [] '' { 'a//b': [1, 'x,]'], 'c': '/* d */' } '' =
      [[CHR 0x27] @ ''a//b'' @ [CHR 0x27], [CHR 0x27] @ ''x,]'' @ [CHR 0x27],
       [CHR 0x27] @ ''c'' @ [CHR 0x27], [CHR 0x27] @ ''/* d */'' @ [CHR 0x27]]"
    by simp
  note fact = stripJsonc_keeps_plain_text
    [of "'' { 'a//b': [1, 'x,]'], 'c': '/* d */' } ''" "\<lambda>x. x" "[CHR 0x0A]"
      "CHR ''{'' # (CHR 0x22 # ''a//b'' @ CHR 0x22 # CHR '':'' # ''[1,1]'') @ ''}''" "'' ''"]
  from fact plain have same: "stripJsonc '' { 'a//b': [1, 'x,]'], 'c': '/* d */' } '' =
      trim '' { 'a//b': [1, 'x,]'], 'c': '/* d */' } ''"
    by (rule conjunct1 [THEN mp, THEN conjunct1])
  from fact have kept: "jsonLiterals Outside []
      (stripJsonc '' { 'a//b': [1, 'x,]'], 'c': '/* d */' } '') =
      jsoncLiterals Outside [] '' { 'a//b': [1, 'x,]'], 'c': '/* d */' } ''"
    by (rule conjunct2 [THEN conjunct2])
  have doc: "list_all jsonSpace [CHR 0x0A] \<and>
      jsonValue (CHR ''{'' # (CHR 0x22 # ''a//b'' @ CHR 0x22 # CHR '':'' # ''[1,1]'') @ ''}'') \<and>
      list_all jsonSpace '' ''"
    using json_example by (simp add: jsonSpace_def)
  from fact doc have c4: "stripJsonc ([CHR 0x0A] @
         (CHR ''{'' # (CHR 0x22 # ''a//b'' @ CHR 0x22 # CHR '':'' # ''[1,1]'') @ ''}'') @ '' '') =
       CHR ''{'' # (CHR 0x22 # ''a//b'' @ CHR 0x22 # CHR '':'' # ''[1,1]'') @ ''}''"
    by (rule conjunct2 [THEN conjunct1, THEN mp, THEN conjunct2, THEN conjunct1])
  from same have c2: "stripJsonc '' { 'a//b': [1, 'x,]'], 'c': '/* d */' } '' =
      ''{ 'a//b': [1, 'x,]'], 'c': '/* d */' }''"
    by (simp only: trimmed)
  from kept have c3: "jsonLiterals Outside []
      (stripJsonc '' { 'a//b': [1, 'x,]'], 'c': '/* d */' } '') =
      [[CHR 0x27] @ ''a//b'' @ [CHR 0x27], [CHR 0x27] @ ''x,]'' @ [CHR 0x27],
       [CHR 0x27] @ ''c'' @ [CHR 0x27], [CHR 0x27] @ ''/* d */'' @ [CHR 0x27]]"
    by (simp only: lits)
  from plain c2 c3 c4 show ?thesis
    by (rule conjI [OF _ conjI [OF _ conjI]])
qed

section \<open>Properties of syncing the repositories\<close>

lemma effectAll_ok:
  "(fst (effectAll ops) = Inr ()) = (\<forall>op\<in>set ops. snd op = Inr ())"
  by (induction ops rule: effectAll.induct) (auto split: prod.splits)

lemma effectAll_all_finish:
  "\<forall>op\<in>set ops. snd op = Inr () \<Longrightarrow> snd (effectAll ops) = map fst ops"
  by (induction ops rule: effectAll.induct) (auto split: prod.splits)

lemma effectAll_first_failure:
  "fst (effectAll ops) = Inl e \<Longrightarrow>
   \<exists>before n later. ops = before @ (n, Inl e) # later \<and>
     (\<forall>op\<in>set before. snd op = Inr ()) \<and> snd (effectAll ops) = map fst before"
proof (induction ops rule: effectAll.induct)
  case 1
  then show ?case by simp
next
  case (2 n e' later)
  then show ?case
    by (intro exI [of _ "[]"] exI [of _ n] exI [of _ later]) auto
next
  case (3 n u later)
  then have "fst (effectAll later) = Inl e"
    by (auto split: prod.splits)
  from "3.IH" [OF this] obtain before m after where
    "later = before @ (m, Inl e) # after" "\<forall>op\<in>set before. snd op = Inr ()"
    "snd (effectAll later) = map fst before"
    by blast
  then show ?case
    by (intro exI [of _ "(n, Inr u) # before"] exI [of _ m] exI [of _ after])
      (auto split: prod.splits)
qed

text \<open>
  Claim C7, as amended. The batch is one effect with one outcome. It succeeds exactly when
  the sync of every repository succeeds, and then every sync has run to its end. When it
  fails, its error is the error of the first sync that failed, in the order in which the
  syncs finished; the syncs that finished before have run to their end, the others have
  been interrupted, and the caller gets no outcome per repository.
\<close>

theorem batch_fails_as_a_whole:
  "(fst (cloneOrUpdateAllReposLocally env dir repos) = Inr ()) =
     (\<forall>repo\<in>set repos. cloneOrUpdate env dir repo = Inr ())
   \<and> ((\<forall>repo\<in>set repos. cloneOrUpdate env dir repo = Inr ()) \<longrightarrow>
        snd (cloneOrUpdateAllReposLocally env dir repos) = map repoName repos)
   \<and> (\<forall>e. fst (cloneOrUpdateAllReposLocally env dir repos) = Inl e \<longrightarrow>
        (\<exists>before repo later. repos = before @ repo # later \<and>
           (\<forall>r\<in>set before. cloneOrUpdate env dir r = Inr ()) \<and>
           cloneOrUpdate env dir repo = Inl e \<and>
           snd (cloneOrUpdateAllReposLocally env dir repos) = map repoName before))"
proof -
  let ?ops = "map (\<lambda>repo. (repoName repo, cloneOrUpdate env dir repo)) repos"
  have ok: "(fst (cloneOrUpdateAllReposLocally env dir repos) = Inr ()) =
     (\<forall>repo\<in>set repos. cloneOrUpdate env dir repo = Inr ())"
    using effectAll_ok [of ?ops] by (simp add: cloneOrUpdateAllReposLocally_def)
  have fin: "snd (cloneOrUpdateAllReposLocally env dir repos) = map repoName repos"
    if "\<forall>repo\<in>set repos. cloneOrUpdate env dir repo = Inr ()"
    using effectAll_all_finish [of ?ops] that
    by (simp add: cloneOrUpdateAllReposLocally_def comp_def)
  have bad: "\<exists>before repo later. repos = before @ repo # later \<and>
           (\<forall>r\<in>set before. cloneOrUpdate env dir r = Inr ()) \<and>
           cloneOrUpdate env dir repo = Inl e \<and>
           snd (cloneOrUpdateAllReposLocally env dir repos) = map repoName before"
    if "fst (cloneOrUpdateAllReposLocally env dir repos) = Inl e" for e
  proof -
    from that have "fst (effectAll ?ops) = Inl e"
      by (simp add: cloneOrUpdateAllReposLocally_def)
    from effectAll_first_failure [OF this] obtain before n later where
      split: "?ops = before @ (n, Inl e) # later" and
      good: "\<forall>op\<in>set before. snd op = Inr ()" and
      fin: "snd (effectAll ?ops) = map fst before"
      by blast
    from split obtain rb r rl where repos: "repos = rb @ r # rl"
      and b: "before = map (\<lambda>repo. (repoName repo, cloneOrUpdate env dir repo)) rb"
      and r: "(n, Inl e) = (repoName r, cloneOrUpdate env dir r)"
      by (auto simp: map_eq_append_conv map_eq_Cons_conv)
    show ?thesis
      using good fin r
      by (intro exI [of _ rb] exI [of _ r] exI [of _ rl])
        (auto simp: repos b cloneOrUpdateAllReposLocally_def comp_def)
  qed
  from ok fin bad show ?thesis
    by blast
qed

text \<open>The two example repositories, each synced alone.\<close>

lemma example_syncs:
  "cloneOrUpdate exampleGit ''/repos'' brokenRepo =
     Inl (ContextError ''Failed to clone repo'' (GitCloneExit 128))"
  "cloneOrUpdate exampleGit ''/repos'' svelteRepo = Inr ()"
  by (simp_all add: cloneOrUpdate_def cloneRepo_def exampleGit_def brokenRepo_def svelteRepo_def)

theorem batch_fails_as_a_whole_witness:
  "fst (cloneOrUpdateAllReposLocally exampleGit ''/repos'' [svelteRepo]) = Inr ()
   \<and> snd (cloneOrUpdateAllReposLocally exampleGit ''/repos'' [svelteRepo]) = [''svelte'']"
proof -
  have all: "\<forall>repo\<in>set [svelteRepo]. cloneOrUpdate exampleGit ''/repos'' repo = Inr ()"
    by (simp add: example_syncs)
  note fact = batch_fails_as_a_whole [of exampleGit "''/repos''" "[svelteRepo]"]
  from fact all have "fst (cloneOrUpdateAllReposLocally exampleGit ''/repos'' [svelteRepo]) = Inr ()"
    by blast
  moreover from fact all have
    "snd (cloneOrUpdateAllReposLocally exampleGit ''/repos'' [svelteRepo]) = map repoName [svelteRepo]"
    by blast
  ultimately show ?thesis
    by (simp add: svelteRepo_def)
qed

text \<open>
  Claim C7, as stated, fails. In a batch of a failing and a succeeding repository the whole
  batch fails with the one error. When the failing clone finishes first, the other sync is
  interrupted and does not run to its end; when it finishes last, the other sync has
  finished, but the caller still gets the error only.
\<close>

theorem failing_sync_stops_batch:
  "cloneOrUpdate exampleGit ''/repos'' brokenRepo =
     Inl (ContextError ''Failed to clone repo'' (GitCloneExit 128))
   \<and> cloneOrUpdate exampleGit ''/repos'' svelteRepo = Inr ()
   \<and> cloneOrUpdateAllReposLocally exampleGit ''/repos'' [brokenRepo, svelteRepo] =
       (Inl (ContextError ''Failed to clone repo'' (GitCloneExit 128)), [])
   \<and> cloneOrUpdateAllReposLocally exampleGit ''/repos'' [svelteRepo, brokenRepo] =
       (Inl (ContextError ''Failed to clone repo'' (GitCloneExit 128)), [''svelte''])"
proof -
  have first: "cloneOrUpdateAllReposLocally exampleGit ''/repos'' [brokenRepo, svelteRepo] =
       (Inl (ContextError ''Failed to clone repo'' (GitCloneExit 128)), [])"
    by (simp add: cloneOrUpdateAllReposLocally_def example_syncs)
  have second: "cloneOrUpdateAllReposLocally exampleGit ''/repos'' [svelteRepo, brokenRepo] =
       (Inl (ContextError ''Failed to clone repo'' (GitCloneExit 128)), [''svelte''])"
    by (simp add: cloneOrUpdateAllReposLocally_def example_syncs) (simp add: svelteRepo_def)
  from example_syncs first second show ?thesis
    by (intro conjI)
qed

section \<open>Properties of cancelling\<close>



lemma first_escape:
  "isStreaming p \<Longrightarrow> cancelState p = CancelNone \<Longrightarrow> abortController p \<noteq> Some True \<Longrightarrow>
   happen p Escape = p\<lparr>cancelState := CancelPending\<rparr>"
  by (simp add: requestCancel_def)




end
